theory Spec2Isabelle
  imports Complex_Main "HOL-Library.Word"
begin

unbundle bit_operations_syntax

section \<open>Python primitives used by the three bridge scripts\<close>

text \<open>
  A \<^verbatim>\<open>bytes\<close>/\<^verbatim>\<open>bytearray\<close> value is a list of 8-bit words; Python integers are
  \<^typ>\<open>int\<close> (or \<^typ>\<open>nat\<close> for counters that only count up from zero).  Exceptions
  that the scripts' own expressions can raise are values of \<open>py_error\<close>.
\<close>

type_synonym byte = "8 word"

datatype py_error = IndexError | ZeroDivisionError | ValueError

text \<open>\<^verbatim>\<open>xs[i:j]\<close> for non-negative \<open>i\<close>, \<open>j\<close>: never raises, clips at the end.\<close>

definition slice :: "nat \<Rightarrow> nat \<Rightarrow> 'a list \<Rightarrow> 'a list" where
  "slice i j xs = take (j - i) (drop i xs)"

text \<open>\<^verbatim>\<open>xs[-1:]\<close>: the last element as a list, empty on an empty list.\<close>

definition last_slice :: "'a list \<Rightarrow> 'a list" where
  "last_slice xs = drop (length xs - 1) xs"

text \<open>\<^verbatim>\<open>xs[i]\<close> for a non-negative index: raises \<^verbatim>\<open>IndexError\<close> out of range.\<close>

definition py_index :: "'a list \<Rightarrow> nat \<Rightarrow> py_error + 'a" where
  "py_index xs i = (if i < length xs then Inr (xs ! i) else Inl IndexError)"

text \<open>\<^verbatim>\<open>buf.startswith(sub)\<close> and \<^verbatim>\<open>buf.endswith(sub)\<close>.\<close>

definition startswith :: "'a list \<Rightarrow> 'a list \<Rightarrow> bool" where
  "startswith buf sub = (take (length sub) buf = sub)"

definition endswith :: "'a list \<Rightarrow> 'a list \<Rightarrow> bool" where
  "endswith buf sub = (length sub \<le> length buf \<and> drop (length buf - length sub) buf = sub)"

text \<open>\<^verbatim>\<open>buf.find(sub)\<close>: the lowest index where \<open>sub\<close> occurs; Python's \<open>-1\<close> is \<open>None\<close>.\<close>

fun find_bytes :: "'a list \<Rightarrow> 'a list \<Rightarrow> nat option" where
  "find_bytes [] sub = (if sub = [] then Some 0 else None)"
| "find_bytes (x # xs) sub =
     (if startswith (x # xs) sub then Some 0 else map_option Suc (find_bytes xs sub))"

text \<open>\<^verbatim>\<open>sub in buf\<close> on byte strings is substring search.\<close>

definition bytes_in :: "'a list \<Rightarrow> 'a list \<Rightarrow> bool" where
  "bytes_in sub buf = (find_bytes buf sub \<noteq> None)"

text \<open>\<^verbatim>\<open>n.to_bytes(2, 'big')\<close> for \<open>0 \<le> n < 65536\<close> (the only arguments are the two markers).\<close>

definition to_bytes2_big :: "nat \<Rightarrow> byte list" where
  "to_bytes2_big n = [of_nat (n div 256), of_nat (n mod 256)]"

text \<open>\<^verbatim>\<open>int.from_bytes(bs, byteorder='big', signed=True)\<close>, for any length.\<close>

definition from_bytes_big :: "byte list \<Rightarrow> int" where
  "from_bytes_big bs = foldl (\<lambda>acc b. acc * 256 + uint b) 0 bs"

definition from_bytes_big_signed :: "byte list \<Rightarrow> int" where
  "from_bytes_big_signed bs =
     (let u = from_bytes_big bs; n = length bs
      in if 0 < n \<and> 2 ^ (8 * n - 1) \<le> u then u - 2 ^ (8 * n) else u)"

text \<open>\<^verbatim>\<open>sum(bs)\<close> over a byte string is an unbounded integer.\<close>

definition sum_bytes :: "byte list \<Rightarrow> int" where
  "sum_bytes bs = sum_list (map uint bs)"

text \<open>A loop body that may raise, run over a list: stops at the first exception.\<close>

primrec map_result :: "('a \<Rightarrow> py_error + 'b) \<Rightarrow> 'a list \<Rightarrow> py_error + 'b list" where
  "map_result f [] = Inr []"
| "map_result f (x # xs) =
     (case f x of Inl e \<Rightarrow> Inl e
      | Inr y \<Rightarrow> (case map_result f xs of Inl e \<Rightarrow> Inl e | Inr ys \<Rightarrow> Inr (y # ys)))"

section \<open>Constants of \<^verbatim>\<open>cerelog_lsl.py\<close> (shared by the other two scripts)\<close>

definition DATA_PACKET_START_MARKER :: nat where "DATA_PACKET_START_MARKER = 0xABCD"
definition DATA_PACKET_END_MARKER :: nat where "DATA_PACKET_END_MARKER = 0xDCBA"
definition DATA_PACKET_TOTAL_SIZE :: nat where "DATA_PACKET_TOTAL_SIZE = 37"
definition PACKET_IDX_LENGTH :: nat where "PACKET_IDX_LENGTH = 2"
definition PACKET_IDX_CHECKSUM :: nat where "PACKET_IDX_CHECKSUM = 34"
definition ADS1299_NUM_CHANNELS :: nat where "ADS1299_NUM_CHANNELS = 8"
definition ADS1299_NUM_STATUS_BYTES :: nat where "ADS1299_NUM_STATUS_BYTES = 3"
definition ADS1299_BYTES_PER_CHANNEL :: nat where "ADS1299_BYTES_PER_CHANNEL = 3"

definition start_marker :: "byte list" where
  "start_marker = to_bytes2_big DATA_PACKET_START_MARKER"

definition end_marker :: "byte list" where
  "end_marker = to_bytes2_big DATA_PACKET_END_MARKER"

section \<open>Sample decoding and unit conversion\<close>

text \<open>
  \<^verbatim>\<open>convert_to_microvolts(raw_val, vref=4.5, gain=24)\<close>.  Python computes in binary64
  floats; the model computes in \<^typ>\<open>real\<close>.  For the default arguments and a 24-bit
  \<open>raw_val\<close> every intermediate float is exact: \<open>2 * 4.5 = 9\<close>, \<open>9 / 24 = 3 / 8\<close>,
  \<open>3 / 8 / 2 ^ 24 = 3 / 2 ^ 27\<close>, and the two products have numerators below
  \<open>2 ^ 53\<close> over the denominator \<open>2 ^ 27\<close> (lemma \<open>microvolts_numerators\<close> below), so
  the real value is the float value.  A zero \<open>gain\<close> raises \<^verbatim>\<open>ZeroDivisionError\<close>.
\<close>

definition convert_to_microvolts :: "int \<Rightarrow> real \<Rightarrow> real \<Rightarrow> py_error + real" where
  "convert_to_microvolts raw_val vref gain =
     (if gain = 0 then Inl ZeroDivisionError
      else let scale_factor = (2 * vref / gain) / (2 ^ 24)
           in Inr (real_of_int raw_val * scale_factor * 1000000))"

text \<open>
  The channel loop of both \<^verbatim>\<open>cerelog_lsl.main\<close> and
  \<^verbatim>\<open>broken_cerelog_wifi_bridge.serial_worker\<close>: \<open>ads_data = potential_packet[7:34]\<close>,
  then for each of the 8 channels the 3 bytes at \<open>3 + ch * 3\<close> read as a signed
  big-endian integer.
\<close>

definition channel_value :: "byte list \<Rightarrow> nat \<Rightarrow> int" where
  "channel_value ads_data ch =
     (let idx = ADS1299_NUM_STATUS_BYTES + ch * ADS1299_BYTES_PER_CHANNEL;
          raw_bytes = slice idx (idx + ADS1299_BYTES_PER_CHANNEL) ads_data
      in from_bytes_big_signed raw_bytes)"

definition decode_channels :: "byte list \<Rightarrow> int list" where
  "decode_channels potential_packet =
     (let ads_data = slice 7 34 potential_packet
      in map (channel_value ads_data) [0..<ADS1299_NUM_CHANNELS])"

text \<open>\<^verbatim>\<open>lsl_sample\<close> of \<^verbatim>\<open>cerelog_lsl.main\<close>: each channel value in microvolts.\<close>

definition lsl_sample :: "byte list \<Rightarrow> py_error + real list" where
  "lsl_sample potential_packet =
     map_result (\<lambda>v. convert_to_microvolts v 4.5 24) (decode_channels potential_packet)"

section \<open>The stream loop of \<^verbatim>\<open>cerelog_lsl.main\<close>\<close>

text \<open>
  The inner \<^verbatim>\<open>while True\<close> parse loop (lines 145--200).  The state is the
  accumulation buffer and the list of samples pushed to the outlet so far.  An exception
  leaves the loop (\<^verbatim>\<open>except Exception\<close> ends the stream).
\<close>

function stream_loop :: "real list list \<Rightarrow> byte list \<Rightarrow> py_error + (real list list \<times> byte list)" where
  "stream_loop outlet buffer =
     (case find_bytes buffer start_marker of
        None \<Rightarrow> Inr (outlet, if 0 < length buffer then last_slice buffer else buffer)
      | Some start_idx \<Rightarrow>
          if length buffer < start_idx + DATA_PACKET_TOTAL_SIZE then Inr (outlet, buffer)
          else
            let potential_packet = slice start_idx (start_idx + DATA_PACKET_TOTAL_SIZE) buffer
            in if endswith potential_packet end_marker then
                 (let payload = slice PACKET_IDX_LENGTH PACKET_IDX_CHECKSUM potential_packet;
                      calculated_checksum = sum_bytes payload AND 0xFF
                  in case py_index potential_packet PACKET_IDX_CHECKSUM of
                       Inl e \<Rightarrow> Inl e
                     | Inr packet_checksum \<Rightarrow>
                         if calculated_checksum = uint packet_checksum then
                           (case lsl_sample potential_packet of
                              Inl e \<Rightarrow> Inl e
                            | Inr sample \<Rightarrow>
                                stream_loop (outlet @ [sample])
                                  (drop (start_idx + DATA_PACKET_TOTAL_SIZE) buffer))
                         else stream_loop outlet (drop (start_idx + 1) buffer))
               else stream_loop outlet (drop (start_idx + 1) buffer))"
  by pat_completeness auto
termination
  by (relation "measure (\<lambda>(outlet, buffer). length buffer)")
     (auto simp: DATA_PACKET_TOTAL_SIZE_def)

declare stream_loop.simps [simp del]

text \<open>
  One pass of the outer loop (lines 137--142): with nothing waiting the loop sleeps and
  continues; otherwise the bytes read are appended and the buffer is parsed.
\<close>

definition read_and_parse ::
  "real list list \<times> byte list \<Rightarrow> byte list \<Rightarrow> py_error + (real list list \<times> byte list)" where
  "read_and_parse st chunk =
     (case st of (outlet, buffer) \<Rightarrow>
        if 0 < length chunk then stream_loop outlet (buffer @ chunk) else Inr (outlet, buffer))"

text \<open>The successive reads of the outer \<^verbatim>\<open>while True\<close> loop, one chunk per read.\<close>

fun run_reads ::
  "real list list \<times> byte list \<Rightarrow> byte list list \<Rightarrow> py_error + (real list list \<times> byte list)" where
  "run_reads st [] = Inr st"
| "run_reads st (chunk # chunks) =
     (case read_and_parse st chunk of Inl e \<Rightarrow> Inl e | Inr st' \<Rightarrow> run_reads st' chunks)"

section \<open>Stream verification in \<^verbatim>\<open>find_and_open_board\<close>\<close>

text \<open>
  Each candidate port is tried in turn.  What the serial library does on a port is the
  environment's choice: opening raises, a later call raises, or the final
  \<^verbatim>\<open>ser.read(37 * 5)\<close> returns a burst of bytes (empty on timeout).  The function
  returns the port it hands back (\<open>None\<close> when every candidate failed) and the ports it
  closed, in order.
\<close>

datatype probe = OpenRaises | IoRaises | Burst "byte list"

text \<open>\<^verbatim>\<open>cerelog_lsl.find_and_open_board\<close>, lines 56--107.\<close>

fun lsl_find_and_open_board :: "(string \<times> probe) list \<Rightarrow> string option \<times> string list" where
  "lsl_find_and_open_board [] = (None, [])"
| "lsl_find_and_open_board ((port_name, OpenRaises) # rest) = lsl_find_and_open_board rest"
| "lsl_find_and_open_board ((port_name, IoRaises) # rest) =
     (case lsl_find_and_open_board rest of (ser, closed_ports) \<Rightarrow> (ser, port_name # closed_ports))"
| "lsl_find_and_open_board ((port_name, Burst bytes_received) # rest) =
     (if bytes_received \<noteq> [] \<and> bytes_in start_marker bytes_received then (Some port_name, [])
      else case lsl_find_and_open_board rest of (ser, closed_ports) \<Rightarrow> (ser, port_name # closed_ports))"

text \<open>\<^verbatim>\<open>broken_cerelog_wifi_bridge.find_and_open_board\<close>, lines 51--79.\<close>

fun wifi_find_and_open_board :: "(string \<times> probe) list \<Rightarrow> string option \<times> string list" where
  "wifi_find_and_open_board [] = (None, [])"
| "wifi_find_and_open_board ((port_name, OpenRaises) # rest) = wifi_find_and_open_board rest"
| "wifi_find_and_open_board ((port_name, IoRaises) # rest) =
     (case wifi_find_and_open_board rest of (ser, closed_ports) \<Rightarrow> (ser, port_name # closed_ports))"
| "wifi_find_and_open_board ((port_name, Burst bytes_received) # rest) =
     (if bytes_received \<noteq> [] \<and> bytes_in start_marker bytes_received then (Some port_name, [])
      else case wifi_find_and_open_board rest of (ser, closed_ports) \<Rightarrow> (ser, port_name # closed_ports))"

text \<open>
  \<^verbatim>\<open>broken_cerelog_virtual_dongle.find_and_open_board\<close>, lines 35--60: the test is
  \<^verbatim>\<open>if ser.read(RAW_SIZE * 5):\<close>, the truth value of the burst alone.
\<close>

fun dongle_find_and_open_board :: "(string \<times> probe) list \<Rightarrow> string option \<times> string list" where
  "dongle_find_and_open_board [] = (None, [])"
| "dongle_find_and_open_board ((port_name, OpenRaises) # rest) = dongle_find_and_open_board rest"
| "dongle_find_and_open_board ((port_name, IoRaises) # rest) =
     (case dongle_find_and_open_board rest of (ser, closed_ports) \<Rightarrow> (ser, port_name # closed_ports))"
| "dongle_find_and_open_board ((port_name, Burst bytes_received) # rest) =
     (if bytes_received \<noteq> [] then (Some port_name, [])
      else case dongle_find_and_open_board rest of (ser, closed_ports) \<Rightarrow> (ser, port_name # closed_ports))"

section \<open>The serial worker of \<^verbatim>\<open>broken_cerelog_wifi_bridge.py\<close>\<close>

text \<open>A row of the JSON chunk: Python integers and one float.\<close>

datatype json_num = JInt int | JFloat real

text \<open>
  Lines 127--130: append under the lock, then drop the oldest row when the queue has grown
  past 500.  \<^verbatim>\<open>pop(0)\<close> is only reached on a non-empty list.
\<close>

definition queue_put :: "'a list \<Rightarrow> 'a \<Rightarrow> 'a list" where
  "queue_put data_queue row_data =
     (let data_queue = data_queue @ [row_data]
      in if 500 < length data_queue then tl data_queue else data_queue)"

text \<open>
  The parse loop of \<^verbatim>\<open>serial_worker\<close> (lines 99--135).  \<open>clock k\<close> is what the
  \<open>k\<close>-th call of \<^verbatim>\<open>time.time()\<close> returns; the state counts the calls made.
\<close>

function serial_worker_loop ::
  "(nat \<Rightarrow> real) \<Rightarrow> nat \<times> json_num list list \<Rightarrow> byte list \<Rightarrow>
     py_error + ((nat \<times> json_num list list) \<times> byte list)" where
  "serial_worker_loop clock st buffer =
     (case find_bytes buffer start_marker of
        None \<Rightarrow> Inr (st, if 0 < length buffer then last_slice buffer else buffer)
      | Some start_idx \<Rightarrow>
          if length buffer < start_idx + DATA_PACKET_TOTAL_SIZE then Inr (st, buffer)
          else
            let potential_packet = slice start_idx (start_idx + DATA_PACKET_TOTAL_SIZE) buffer
            in if endswith potential_packet end_marker then
                 (let payload = slice PACKET_IDX_LENGTH PACKET_IDX_CHECKSUM potential_packet
                  in case py_index potential_packet PACKET_IDX_CHECKSUM of
                       Inl e \<Rightarrow> Inl e
                     | Inr packet_checksum \<Rightarrow>
                         if sum_bytes payload AND 0xFF = uint packet_checksum then
                           (case st of (calls, data_queue) \<Rightarrow>
                              let row_data = map JInt (decode_channels potential_packet);
                                  row_data = row_data @ [JInt 0, JInt 0, JInt 0];
                                  row_data = row_data @ [JFloat (clock calls * 1000)]
                              in serial_worker_loop clock (calls + 1, queue_put data_queue row_data)
                                   (drop (start_idx + DATA_PACKET_TOTAL_SIZE) buffer))
                         else serial_worker_loop clock st (drop (start_idx + 1) buffer))
               else serial_worker_loop clock st (drop (start_idx + 1) buffer))"
  by pat_completeness auto
termination
  by (relation "measure (\<lambda>(clock, st, buffer). length buffer)")
     (auto simp: DATA_PACKET_TOTAL_SIZE_def)

declare serial_worker_loop.simps [simp del]

section \<open>\<^verbatim>\<open>broken_cerelog_virtual_dongle.py\<close>\<close>

definition DOWNSAMPLE_RATIO :: nat where "DOWNSAMPLE_RATIO = 2"
definition RAW_SIZE :: nat where "RAW_SIZE = 37"
definition OBCI_START_BYTE :: byte where "OBCI_START_BYTE = 0xA0"
definition OBCI_END_BYTE :: byte where "OBCI_END_BYTE = 0xC0"

text \<open>
  The calls made on the master side of the pseudo-terminal, in order, and the globals and
  loop variables of the script.  \<^verbatim>\<open>RAW_START\<close> and \<^verbatim>\<open>RAW_END\<close> have the values of
  the two packet markers above.
\<close>

datatype os_call = OsWrite "byte list" | OsClose

record dongle_state =
  streaming_enabled :: bool
  packet_counter :: nat
  sample_index :: nat
  master_fd :: "os_call list"

definition ID_STRING :: "byte list" where
  "ID_STRING = map of_char
     (''OpenBCI V3 8-16 channel'' @ [CHR 0x0D, CHR 0x0A] @
      ''On Board ADS1299 Device ID: 0x3E'' @ [CHR 0x0D, CHR 0x0A] @ ''$$$'')"

text \<open>\<^verbatim>\<open>chr(byte)\<close> for a byte of a \<^verbatim>\<open>bytes\<close> object.\<close>

definition chr :: "byte \<Rightarrow> char" where
  "chr b = char_of (unat b)"

text \<open>The body of \<^verbatim>\<open>for byte in cmd_bytes\<close> in \<^verbatim>\<open>gui_command_listener\<close> (lines 75--88).\<close>

definition on_command_byte :: "dongle_state \<Rightarrow> byte \<Rightarrow> dongle_state" where
  "on_command_byte st byte =
     (let char = chr byte
      in if char = CHR ''v'' then
           st\<lparr>streaming_enabled := False, master_fd := master_fd st @ [OsWrite ID_STRING]\<rparr>
         else if char = CHR ''b'' then st\<lparr>streaming_enabled := True\<rparr>
         else if char = CHR ''s'' then st\<lparr>streaming_enabled := False\<rparr>
         else if char \<in> set ''xX12345678!@#$%^&*()qwertyuiop'' then
           st\<lparr>master_fd := master_fd st @ [OsWrite [0x2C]]\<rparr>
         else st)"

text \<open>
  One \<^verbatim>\<open>os.read\<close> of the listener, handled byte by byte.  The calls on the
  pseudo-terminal are taken to succeed (an \<^verbatim>\<open>OSError\<close> ends the listener thread).
\<close>

definition gui_command_listener :: "dongle_state \<Rightarrow> byte list \<Rightarrow> dongle_state" where
  "gui_command_listener st cmd_bytes = foldl on_command_byte st cmd_bytes"

text \<open>The \<^verbatim>\<open>finally\<close> block of \<^verbatim>\<open>main\<close>: the only place the endpoint is closed.\<close>

definition main_finally :: "dongle_state \<Rightarrow> dongle_state" where
  "main_finally st = st\<lparr>master_fd := master_fd st @ [OsClose]\<rparr>"

text \<open>
  Lines 129--138, what \<^verbatim>\<open>main\<close> does with a window that ends with the end marker.
  \<^verbatim>\<open>and\<close> evaluates the modulus only when streaming is enabled; a zero ratio raises
  there.  \<^verbatim>\<open>bytearray.append\<close> raises \<^verbatim>\<open>ValueError\<close> outside \<open>0..255\<close>.
\<close>

definition on_packet :: "nat \<Rightarrow> dongle_state \<Rightarrow> byte list \<Rightarrow> py_error + dongle_state" where
  "on_packet ratio st potential_packet =
     (let st = st\<lparr>packet_counter := packet_counter st + 1\<rparr>
      in if streaming_enabled st then
           (if ratio = 0 then Inl ZeroDivisionError
            else if packet_counter st mod ratio = 0 then
              (let eeg_data = slice 10 34 potential_packet
               in if sample_index st < 256 then
                    (let out_pkt = [OBCI_START_BYTE] @ [of_nat (sample_index st)] @ eeg_data @
                                   replicate 6 0 @ [OBCI_END_BYTE]
                     in Inr (st\<lparr>master_fd := master_fd st @ [OsWrite out_pkt],
                                sample_index := (sample_index st + 1) mod 256\<rparr>))
                  else Inl ValueError)
            else Inr st)
         else Inr st)"

text \<open>
  The parse loop of \<^verbatim>\<open>main\<close> (lines 120--141), for a downsample ratio; the script
  runs it with \<open>DOWNSAMPLE_RATIO\<close>.  The listener thread is not interleaved: the flag
  keeps the value it has in the state.
\<close>

function dongle_loop :: "nat \<Rightarrow> dongle_state \<Rightarrow> byte list \<Rightarrow> py_error + (dongle_state \<times> byte list)" where
  "dongle_loop ratio st buffer =
     (case find_bytes buffer start_marker of
        None \<Rightarrow> Inr (st, if 0 < length buffer then last_slice buffer else buffer)
      | Some start_idx \<Rightarrow>
          if length buffer < start_idx + RAW_SIZE then Inr (st, buffer)
          else
            let potential_packet = slice start_idx (start_idx + RAW_SIZE) buffer
            in if endswith potential_packet end_marker then
                 (case on_packet ratio st potential_packet of
                    Inl e \<Rightarrow> Inl e
                  | Inr st' \<Rightarrow> dongle_loop ratio st' (drop (start_idx + RAW_SIZE) buffer))
               else dongle_loop ratio st (drop (start_idx + 1) buffer))"
  by pat_completeness auto
termination
  by (relation "measure (\<lambda>(ratio, st, buffer). length buffer)")
     (auto simp: RAW_SIZE_def)

declare dongle_loop.simps [simp del]

section \<open>Notions used to state the properties\<close>

text \<open>
  The frame of the device wire protocol for a payload: the start marker, the payload, the
  sum of the payload bytes modulo 256, the end marker.
\<close>

definition raw_frame :: "byte list \<Rightarrow> byte list" where
  "raw_frame P = start_marker @ P @ [word_of_int (sum_bytes P mod 256)] @ end_marker"

text \<open>
  The two tests that \<^verbatim>\<open>cerelog_lsl.main\<close> and \<^verbatim>\<open>serial_worker\<close> apply to a
  37-byte window: the end marker, and the checksum byte against the payload sum.
\<close>

definition passes_checks :: "byte list \<Rightarrow> bool" where
  "passes_checks w =
     (endswith w end_marker \<and>
      sum_bytes (slice PACKET_IDX_LENGTH PACKET_IDX_CHECKSUM w) AND 0xFF =
        uint (w ! PACKET_IDX_CHECKSUM))"

text \<open>
  The one test that \<^verbatim>\<open>broken_cerelog_virtual_dongle.main\<close> applies, for a window
  standing at the front of the buffer: 37 bytes from a start marker to an end marker.
\<close>

definition well_framed :: "byte list \<Rightarrow> bool" where
  "well_framed w = (length w = 37 \<and> startswith w start_marker \<and> endswith w end_marker)"

text \<open>The microvolt value of a raw code with the default reference voltage and gain.\<close>

definition microvolts :: "int \<Rightarrow> real" where
  "microvolts raw = real_of_int raw * (2 * 4.5 / 24) / 2 ^ 24 * 1000000"

text \<open>The 33-byte frame of the third-party serial protocol for a sample index and a window.\<close>

definition obci_frame :: "nat \<Rightarrow> byte list \<Rightarrow> byte list" where
  "obci_frame k w = [0xA0, of_nat (k mod 256)] @ slice 10 34 w @ replicate 6 0 @ [0xC0]"

text \<open>Windows handed to \<open>on_packet\<close> one after the other.\<close>

fun on_packets :: "nat \<Rightarrow> dongle_state \<Rightarrow> byte list list \<Rightarrow> py_error + dongle_state" where
  "on_packets ratio st [] = Inr st"
| "on_packets ratio st (w # ws) =
     (case on_packet ratio st w of Inl e \<Rightarrow> Inl e | Inr st' \<Rightarrow> on_packets ratio st' ws)"

section \<open>Facts about the primitives and the frame format\<close>

lemma start_marker_bytes: "start_marker = [0xAB, 0xCD]"
  by (simp add: start_marker_def to_bytes2_big_def DATA_PACKET_START_MARKER_def)

lemma end_marker_bytes: "end_marker = [0xDC, 0xBA]"
  by (simp add: end_marker_def to_bytes2_big_def DATA_PACKET_END_MARKER_def)

lemma and_255_mod: "(k::int) AND 0xFF = k mod 256"
proof -
  have "(0xFF::int) = mask 8" by (simp add: mask_eq_exp_minus_1)
  then show ?thesis by (simp only: flip: take_bit_eq_mask) (simp add: take_bit_eq_mod)
qed

lemma find_bytes_startswith: "startswith buf sub \<Longrightarrow> find_bytes buf sub = Some 0"
  by (cases buf) (auto simp: startswith_def)

lemma find_bytes_Some_iff:
  "find_bytes buf sub = Some i \<longleftrightarrow>
     startswith (drop i buf) sub \<and> i \<le> length buf \<and> (\<forall>j<i. \<not> startswith (drop j buf) sub)"
proof (induction buf arbitrary: i)
  case Nil
  then show ?case by (auto simp: startswith_def)
next
  case (Cons x xs)
  show ?case
  proof (cases "startswith (x # xs) sub")
    case True
    then show ?thesis by (cases i) auto
  next
    case False
    show ?thesis
    proof (cases i)
      case 0
      with False show ?thesis by simp
    next
      case (Suc k)
      have "(\<forall>j<Suc k. \<not> startswith (drop j (x # xs)) sub) = (\<forall>j<k. \<not> startswith (drop j xs) sub)"
        using False by (auto simp: less_Suc_eq_0_disj)
      with False Suc Cons.IH [of k] show ?thesis by auto
    qed
  qed
qed

lemma find_bytes_None_iff:
  "find_bytes buf sub = None \<longleftrightarrow> (\<forall>j\<le>length buf. \<not> startswith (drop j buf) sub)"
proof (induction buf)
  case Nil
  then show ?case by (auto simp: startswith_def)
next
  case (Cons x xs)
  have "(\<forall>j\<le>Suc (length xs). \<not> startswith (drop j (x # xs)) sub) =
        (\<not> startswith (x # xs) sub \<and> (\<forall>j\<le>length xs. \<not> startswith (drop j xs) sub))"
  proof (intro iffI conjI allI impI)
    assume a: "\<forall>j\<le>Suc (length xs). \<not> startswith (drop j (x # xs)) sub"
    from a [rule_format, of 0] show "\<not> startswith (x # xs) sub" by simp
    fix j assume "j \<le> length xs"
    with a [rule_format, of "Suc j"] show "\<not> startswith (drop j xs) sub" by simp
  next
    fix j
    assume a: "\<not> startswith (x # xs) sub \<and> (\<forall>j\<le>length xs. \<not> startswith (drop j xs) sub)"
      and "j \<le> Suc (length xs)"
    then show "\<not> startswith (drop j (x # xs)) sub" by (cases j) auto
  qed
  with Cons show ?case by auto
qed

lemma map_result_Inr: "(\<And>x. x \<in> set xs \<Longrightarrow> f x = Inr (g x)) \<Longrightarrow> map_result f xs = Inr (map g xs)"
  by (induction xs) auto

lemma convert_default: "convert_to_microvolts v 4.5 24 = Inr (microvolts v)"
  by (simp add: convert_to_microvolts_def microvolts_def)

lemma lsl_sample_Inr:
  "lsl_sample p = Inr (map microvolts (decode_channels p))"
  unfolding lsl_sample_def by (rule map_result_Inr) (rule convert_default)

lemma length_slice: "length (slice i j xs) = min (j - i) (length xs - i)"
  by (simp add: slice_def)

lemma stream_loop_no_marker:
  "find_bytes buffer start_marker = None \<Longrightarrow> stream_loop outlet buffer = Inr (outlet, last_slice buffer)"
  by (subst stream_loop.simps) (simp add: last_slice_def)

lemma stream_loop_wait:
  "find_bytes buffer start_marker = Some start_idx \<Longrightarrow> length buffer < start_idx + 37 \<Longrightarrow>
   stream_loop outlet buffer = Inr (outlet, buffer)"
  by (subst stream_loop.simps) (simp add: DATA_PACKET_TOTAL_SIZE_def)

lemma stream_loop_skip:
  "find_bytes buffer start_marker = Some start_idx \<Longrightarrow> start_idx + 37 \<le> length buffer \<Longrightarrow>
   \<not> passes_checks (slice start_idx (start_idx + 37) buffer) \<Longrightarrow>
   stream_loop outlet buffer = stream_loop outlet (drop (start_idx + 1) buffer)"
  by (subst stream_loop.simps)
     (auto simp: DATA_PACKET_TOTAL_SIZE_def PACKET_IDX_CHECKSUM_def PACKET_IDX_LENGTH_def
        passes_checks_def py_index_def length_slice Let_def)

lemma stream_loop_emit:
  "find_bytes buffer start_marker = Some start_idx \<Longrightarrow> start_idx + 37 \<le> length buffer \<Longrightarrow>
   passes_checks (slice start_idx (start_idx + 37) buffer) \<Longrightarrow>
   stream_loop outlet buffer =
     stream_loop (outlet @ [map microvolts (decode_channels (slice start_idx (start_idx + 37) buffer))])
       (drop (start_idx + 37) buffer)"
  by (subst stream_loop.simps)
     (auto simp: DATA_PACKET_TOTAL_SIZE_def PACKET_IDX_CHECKSUM_def PACKET_IDX_LENGTH_def
        passes_checks_def py_index_def length_slice Let_def lsl_sample_Inr)

lemma stream_loop_empty: "stream_loop outlet [] = Inr (outlet, [])"
  by (subst stream_loop.simps) (simp add: start_marker_bytes)

lemma length_raw_frame: "length P = 32 \<Longrightarrow> length (raw_frame P) = 37"
  by (simp add: raw_frame_def start_marker_bytes end_marker_bytes)

lemma startswith_raw_frame: "startswith (raw_frame P) start_marker"
  by (simp add: raw_frame_def startswith_def)

lemma payload_raw_frame: "length P = 32 \<Longrightarrow> slice 2 34 (raw_frame P) = P"
  by (simp add: raw_frame_def start_marker_bytes slice_def)

lemma ads_data_raw_frame: "length P = 32 \<Longrightarrow> slice 7 34 (raw_frame P) = drop 5 P"
  by (simp add: raw_frame_def start_marker_bytes slice_def)

lemma passes_checks_raw_frame: "length P = 32 \<Longrightarrow> passes_checks (raw_frame P)"
proof -
  assume len: "length P = 32"
  have e: "endswith (raw_frame P) end_marker"
    by (simp add: raw_frame_def endswith_def start_marker_bytes end_marker_bytes)
  have i: "raw_frame P ! 34 = word_of_int (sum_bytes P mod 256)"
    using len by (simp add: raw_frame_def start_marker_bytes nth_append)
  have u: "uint (word_of_int (sum_bytes P mod 256) :: byte) = sum_bytes P mod 256"
    by (simp add: uint_word_of_int take_bit_eq_mod)
  show ?thesis
    unfolding passes_checks_def PACKET_IDX_LENGTH_def PACKET_IDX_CHECKSUM_def
    using e by (simp add: payload_raw_frame [OF len] i u and_255_mod)
qed

lemma slice_drop: "slice i (i + n) (drop k xs) = slice (i + k) (i + k + n) xs"
  by (simp add: slice_def add.commute)

lemma garbage_then_frame:
  assumes F: "length F = 37" "startswith F start_marker" "passes_checks F"
  shows "(\<forall>i<length G. startswith (drop i (G @ F)) start_marker \<longrightarrow>
             \<not> passes_checks (slice i (i + 37) (G @ F))) \<Longrightarrow>
         stream_loop outlet (G @ F) =
           Inr (outlet @ [map microvolts (decode_channels F)], [])"
proof (induction "length G" arbitrary: G rule: less_induct)
  case less
  let ?B = "G @ F"
  have occ: "startswith (drop (length G) ?B) start_marker" using F by simp
  have "find_bytes ?B start_marker \<noteq> None"
    unfolding find_bytes_None_iff using occ by (auto intro!: exI [of _ "length G"] simp del: drop_append)
  then obtain i where i: "find_bytes ?B start_marker = Some i" by auto
  then have at_i: "startswith (drop i ?B) start_marker"
    and least: "\<forall>j<i. \<not> startswith (drop j ?B) start_marker"
    by (auto simp: find_bytes_Some_iff)
  have ile: "i \<le> length G"
    using least occ by (meson not_le)
  have full: "i + 37 \<le> length ?B" using ile F by simp
  show ?case
  proof (cases "i = length G")
    case True
    have w: "slice i (i + 37) ?B = F" using True F by (simp add: slice_def)
    have d: "drop (i + 37) ?B = []" using True F by simp
    have "passes_checks (slice i (i + 37) ?B)" using F w by simp
    from stream_loop_emit [OF i full this, of outlet] show ?thesis
      unfolding w d stream_loop_empty .
  next
    case False
    then have lt: "i < length G" using ile by simp
    with less.prems at_i have bad: "\<not> passes_checks (slice i (i + 37) ?B)" by blast
    let ?G' = "drop (i + 1) G"
    have d: "drop (i + 1) ?B = ?G' @ F" using lt by simp
    have len': "length ?G' < length G" using lt by simp
    have prem': "\<forall>j<length ?G'. startswith (drop j (?G' @ F)) start_marker \<longrightarrow>
             \<not> passes_checks (slice j (j + 37) (?G' @ F))"
    proof (intro allI impI)
      fix j assume j: "j < length ?G'" and s: "startswith (drop j (?G' @ F)) start_marker"
      have jj: "j + (i + 1) < length G" using j by simp
      have "drop j (?G' @ F) = drop (j + (i + 1)) ?B"
        by (simp only: d [symmetric] drop_drop)
      with s have "startswith (drop (j + (i + 1)) ?B) start_marker" by simp
      with less.prems jj have "\<not> passes_checks (slice (j + (i + 1)) (j + (i + 1) + 37) ?B)" by blast
      moreover have "slice j (j + 37) (?G' @ F) = slice (j + (i + 1)) (j + (i + 1) + 37) ?B"
        by (simp only: d [symmetric] slice_drop)
      ultimately show "\<not> passes_checks (slice j (j + 37) (?G' @ F))" by simp
    qed
    have "stream_loop outlet ?B = stream_loop outlet (?G' @ F)"
      using stream_loop_skip [OF i full bad, of outlet] d by simp
    also have "\<dots> = Inr (outlet @ [map microvolts (decode_channels F)], [])"
      using less.hyps [OF len' prem'] .
    finally show ?thesis .
  qed
qed

section \<open>The sample decoder\<close>

lemma slice_slice_drop: "slice i j (drop k xs) = slice (i + k) (j + k) xs"
  by (simp add: slice_def add.commute)

lemma slice3: "i + 3 \<le> length xs \<Longrightarrow> slice i (i + 3) xs = [xs ! i, xs ! (i + 1), xs ! (i + 2)]"
  by (auto simp: slice_def list_eq_iff_nth_eq less_Suc_eq nth_Cons' numeral_3_eq_3)

lemma from_bytes3:
  "from_bytes_big_signed [a, b, c] =
     (let u = 65536 * uint a + 256 * uint b + uint c in if 8388608 \<le> u then u - 16777216 else u)"
  by (simp add: from_bytes_big_signed_def from_bytes_big_def Let_def)

lemma from_bytes3_range:
  "- 8388608 \<le> from_bytes_big_signed [a, b, c] \<and> from_bytes_big_signed [a :: byte, b, c] \<le> 8388607"
proof -
  define u where "u = 65536 * uint a + 256 * uint b + uint c"
  have "uint a < 256" "uint b < 256" "uint c < 256"
    using uint_lt2p [of a] uint_lt2p [of b] uint_lt2p [of c] by simp_all
  then have "u < 16777216" unfolding u_def by linarith
  moreover have "0 \<le> u" unfolding u_def by simp
  ultimately show ?thesis unfolding from_bytes3 Let_def u_def [symmetric] by auto
qed

lemma channel_value_packet:
  assumes "length p = 37" "ch < 8"
  shows "channel_value (slice 7 34 p) ch =
           from_bytes_big_signed [p ! (10 + 3 * ch), p ! (11 + 3 * ch), p ! (12 + 3 * ch)]"
proof -
  have "slice (3 + ch * 3) (3 + ch * 3 + 3) (slice 7 34 p) =
          [slice 7 34 p ! (3 + ch * 3), slice 7 34 p ! (3 + ch * 3 + 1), slice 7 34 p ! (3 + ch * 3 + 2)]"
    using assms by (intro slice3) (simp add: slice_def)
  moreover have "slice 7 34 p ! (3 + ch * 3) = p ! (10 + 3 * ch)"
    "slice 7 34 p ! (3 + ch * 3 + 1) = p ! (11 + 3 * ch)"
    "slice 7 34 p ! (3 + ch * 3 + 2) = p ! (12 + 3 * ch)"
    using assms by (simp_all add: slice_def mult.commute)
  ultimately show ?thesis
    by (simp add: channel_value_def ADS1299_NUM_STATUS_BYTES_def ADS1299_BYTES_PER_CHANNEL_def)
qed

lemma length_decode_channels: "length (decode_channels p) = 8"
  by (simp add: decode_channels_def ADS1299_NUM_CHANNELS_def)

lemma decode_channels_nth:
  "ch < 8 \<Longrightarrow> decode_channels p ! ch = channel_value (slice 7 34 p) ch"
  by (simp add: decode_channels_def ADS1299_NUM_CHANNELS_def)

lemma replicate_numeral_aux: "replicate (numeral k) x = x # replicate (pred_numeral k) x"
  by (simp add: numeral_eq_Suc)

lemma microvolts_numerators:
  "- 8388608 \<le> v \<Longrightarrow> v \<le> 8388607 \<Longrightarrow>
     real_of_int v * ((2 * 4.5 / 24) / 2 ^ 24) = real_of_int (v * 3) / 2 ^ 27 \<and>
     real_of_int v * ((2 * 4.5 / 24) / 2 ^ 24) * 1000000 = real_of_int (v * 3 * 1000000) / 2 ^ 27 \<and>
     \<bar>v * 3\<bar> < 2 ^ 53 \<and> \<bar>v * 3 * 1000000\<bar> < 2 ^ 53"
  by (simp add: abs_less_iff)

text \<open>
  C10: for every 37-byte packet (in particular every checksum-validated one) the sample
  decoder has no failure path (the microvolt conversion of \<^verbatim>\<open>cerelog_lsl.py\<close>
  returns a value, the raw decoding of both scripts is a plain function), it produces
  exactly 8 channel values, channel \<open>ch\<close> is the big-endian two's-complement reading of
  the 3 packet bytes at \<open>10 + 3 * ch\<close>, and every value lies in \<open>[-2^23, 2^23 - 1]\<close>.
\<close>

theorem decode_channels_range:
  "length p = 37 \<Longrightarrow>
     lsl_sample p = Inr (map microvolts (decode_channels p)) \<and>
     length (decode_channels p) = 8 \<and>
     (\<forall>ch<8. decode_channels p ! ch =
        (let u = 65536 * uint (p ! (10 + 3 * ch)) + 256 * uint (p ! (11 + 3 * ch)) + uint (p ! (12 + 3 * ch))
         in if 8388608 \<le> u then u - 16777216 else u)) \<and>
     (\<forall>v\<in>set (decode_channels p). - 8388608 \<le> v \<and> v \<le> 8388607)"
proof (intro conjI allI impI ballI)
  assume len: "length p = 37"
  show "lsl_sample p = Inr (map microvolts (decode_channels p))" by (rule lsl_sample_Inr)
  show "length (decode_channels p) = 8" by (rule length_decode_channels)
  { fix ch :: nat assume "ch < 8"
    then show "decode_channels p ! ch =
        (let u = 65536 * uint (p ! (10 + 3 * ch)) + 256 * uint (p ! (11 + 3 * ch)) + uint (p ! (12 + 3 * ch))
         in if 8388608 \<le> u then u - 16777216 else u)"
      by (simp only: decode_channels_nth channel_value_packet [OF len] from_bytes3) }
  { fix v assume "v \<in> set (decode_channels p)"
    then obtain ch where "ch < 8" "v = decode_channels p ! ch"
      by (metis in_set_conv_nth length_decode_channels)
    then have "v = from_bytes_big_signed [p ! (10 + 3 * ch), p ! (11 + 3 * ch), p ! (12 + 3 * ch)]"
      by (simp only: decode_channels_nth channel_value_packet [OF len])
    then show "- 8388608 \<le> v" "v \<le> 8388607" using from_bytes3_range by simp_all }
qed

theorem decode_channels_range_witness:
  "length (raw_frame (replicate 32 0xFF)) = 37 \<and>
   lsl_sample (raw_frame (replicate 32 0xFF)) =
     Inr (map microvolts (decode_channels (raw_frame (replicate 32 0xFF)))) \<and>
   length (decode_channels (raw_frame (replicate 32 0xFF))) = 8 \<and>
   decode_channels (raw_frame (replicate 32 0xFF)) ! 0 = - 1 \<and>
   - 8388608 \<le> decode_channels (raw_frame (replicate 32 0xFF)) ! 7 \<and>
   decode_channels (raw_frame (replicate 32 0xFF)) ! 7 \<le> 8388607"
proof -
  let ?p = "raw_frame (replicate 32 0xFF)"
  have len: "length ?p = 37" by (simp add: length_raw_frame)
  have b: "?p ! 10 = 0xFF" "?p ! 11 = 0xFF" "?p ! 12 = 0xFF"
    by (simp_all add: raw_frame_def start_marker_bytes nth_append)
  note r = decode_channels_range [OF len]
  from r have "decode_channels ?p ! 0 = - 1" by (simp add: b)
  moreover have "decode_channels ?p ! 7 \<in> set (decode_channels ?p)"
    by (rule nth_mem) (simp add: length_decode_channels)
  with r have "- 8388608 \<le> decode_channels ?p ! 7 \<and> decode_channels ?p ! 7 \<le> 8388607"
    by blast
  ultimately show ?thesis using r len by blast
qed

section \<open>The conversion example\<close>

text \<open>
  C5, as stated, fails: the three bytes \<open>7F FF FF\<close> decode to 8388607, and the conversion
  \<open>raw * (2 * Vref / gain) / 2^24 * 1e6\<close> with \<open>Vref = 4.5\<close>, \<open>gain = 24\<close> gives
  \<open>25165821000000 / 2^27\<close>, about 187499.98 microvolts, which is not within 0.01 of
  3145.73.
\<close>

theorem microvolt_example_counterexample:
  "convert_to_microvolts (from_bytes_big_signed [0x7F, 0xFF, 0xFF]) 4.5 24 =
     Inr (25165821000000 / 134217728) \<and>
   \<not> \<bar>25165821000000 / 134217728 - 3145.73\<bar> \<le> (0.01 :: real)"
  by (simp add: from_bytes3 convert_to_microvolts_def)

text \<open>
  C5, amended: the three bytes \<open>7F FF FF\<close> decode to the raw integer 8388607, and the
  fixed conversion with \<open>Vref = 4.5\<close> and \<open>gain = 24\<close> gives a microvolt value within
  0.01 of 187499.98; a frame carrying these bytes in its first channel yields that value
  as the first entry of the published sample.
\<close>
theorem microvolt_example:
  "from_bytes_big_signed [0x7F, 0xFF, 0xFF] = 8388607 \<and>
   convert_to_microvolts 8388607 4.5 24 = Inr (microvolts 8388607) \<and>
   \<bar>microvolts 8388607 - 187499.98\<bar> \<le> 0.01 \<and>
   lsl_sample (raw_frame (replicate 8 0 @ [0x7F, 0xFF, 0xFF] @ replicate 21 0)) =
     Inr (microvolts 8388607 # replicate 7 (microvolts 0))"
proof -
  let ?p = "raw_frame (replicate 8 0 @ [0x7F, 0xFF, 0xFF] @ replicate 21 0)"
  have "decode_channels ?p = 8388607 # replicate 7 0"
    by (simp add: decode_channels_def channel_value_def raw_frame_def start_marker_bytes
        end_marker_bytes slice_def ADS1299_NUM_CHANNELS_def ADS1299_NUM_STATUS_BYTES_def
        ADS1299_BYTES_PER_CHANNEL_def upt_rec from_bytes_big_signed_def from_bytes_big_def
        replicate_numeral_aux)
  then have "lsl_sample ?p = Inr (microvolts 8388607 # replicate 7 (microvolts 0))"
    by (simp add: lsl_sample_Inr)
  moreover have "\<bar>microvolts 8388607 - 187499.98\<bar> \<le> 0.01"
    by (simp add: microvolts_def)
  moreover have "from_bytes_big_signed [0x7F, 0xFF, 0xFF] = 8388607"
    by (simp add: from_bytes3)
  moreover note convert_default [of 8388607]
  ultimately show ?thesis by blast
qed

section \<open>One frame through the stream loop\<close>

lemma decode_channels_raw_frame:
  assumes "length P = 32"
  shows "decode_channels (raw_frame P) =
           map (\<lambda>ch. from_bytes_big_signed (slice (8 + 3 * ch) (11 + 3 * ch) P)) [0..<8]"
proof -
  have "channel_value (drop 5 P) ch = from_bytes_big_signed (slice (8 + 3 * ch) (11 + 3 * ch) P)" for ch
    by (simp add: channel_value_def ADS1299_NUM_STATUS_BYTES_def ADS1299_BYTES_PER_CHANNEL_def
        slice_slice_drop add.commute mult.commute)
  then show ?thesis
    by (simp add: decode_channels_def ads_data_raw_frame [OF assms] ADS1299_NUM_CHANNELS_def)
qed

lemma stream_loop_raw_frame:
  assumes "length P = 32"
  shows "stream_loop outlet (raw_frame P) = Inr (outlet @ [map microvolts (decode_channels (raw_frame P))], [])"
  using garbage_then_frame [of "raw_frame P" "[]" outlet] assms
  by (simp add: length_raw_frame startswith_raw_frame passes_checks_raw_frame)

text \<open>
  C2: for every 32-byte payload \<open>P\<close>, the 37-byte frame (start marker, \<open>P\<close>, sum of
  \<open>P\<close> modulo 256, end marker) read as one chunk into an empty buffer makes the stream
  loop push exactly one sample and leaves the buffer empty, so all 37 bytes are consumed.
  The payload slice of the accepted window is \<open>P\<close>, and the raw channel values behind the
  pushed sample are the 8 three-byte groups of \<open>P\<close> from offset 8.  Nothing is assumed
  about the bytes of \<open>P\<close>: the payload may contain the start marker.
\<close>

theorem frame_roundtrip:
  "length P = 32 \<Longrightarrow>
     length (raw_frame P) = 37 \<and>
     read_and_parse ([], []) (raw_frame P) =
       Inr ([map microvolts (decode_channels (raw_frame P))], []) \<and>
     slice PACKET_IDX_LENGTH PACKET_IDX_CHECKSUM (raw_frame P) = P \<and>
     decode_channels (raw_frame P) =
       map (\<lambda>ch. from_bytes_big_signed (slice (8 + 3 * ch) (11 + 3 * ch) P)) [0..<8]"
  using stream_loop_raw_frame [of P "[]"]
  by (simp add: read_and_parse_def length_raw_frame payload_raw_frame decode_channels_raw_frame
      PACKET_IDX_LENGTH_def PACKET_IDX_CHECKSUM_def)

theorem frame_roundtrip_witness:
  "length ([0xAB, 0xCD] @ replicate 30 (0x01 :: byte)) = 32 \<and>
   bytes_in start_marker ([0xAB, 0xCD] @ replicate 30 0x01) \<and>
   length (raw_frame ([0xAB, 0xCD] @ replicate 30 0x01)) = 37 \<and>
   read_and_parse ([], []) (raw_frame ([0xAB, 0xCD] @ replicate 30 0x01)) =
     Inr ([map microvolts (decode_channels (raw_frame ([0xAB, 0xCD] @ replicate 30 0x01)))], []) \<and>
   slice PACKET_IDX_LENGTH PACKET_IDX_CHECKSUM (raw_frame ([0xAB, 0xCD] @ replicate 30 0x01)) =
     [0xAB, 0xCD] @ replicate 30 0x01 \<and>
   decode_channels (raw_frame ([0xAB, 0xCD] @ replicate 30 0x01)) = replicate 8 65793"
proof -
  let ?P = "[0xAB, 0xCD] @ replicate 30 (0x01 :: byte)"
  have len: "length ?P = 32" by simp
  have m: "bytes_in start_marker ?P"
    by (simp add: bytes_in_def start_marker_bytes startswith_def)
  have v: "map (\<lambda>ch. from_bytes_big_signed (slice (8 + 3 * ch) (11 + 3 * ch) ?P)) [0..<8] = replicate 8 65793"
    by (simp add: upt_rec slice_def from_bytes_big_signed_def from_bytes_big_def replicate_numeral_aux)
  from frame_roundtrip [OF len] len m v show ?thesis by metis
qed

section \<open>Where the start marker can occur\<close>

lemma startswith_drop_marker_iff:
  "startswith (drop i xs) start_marker \<longleftrightarrow> i + 1 < length xs \<and> xs ! i = 0xAB \<and> xs ! (i + 1) = 0xCD"
proof
  assume "startswith (drop i xs) start_marker"
  then have e: "take 2 (drop i xs) = [0xAB, 0xCD]"
    by (simp add: startswith_def start_marker_bytes numeral_2_eq_2)
  then have "length (take 2 (drop i xs)) = 2" by simp
  then have l: "i + 1 < length xs" by simp
  then have "take 2 (drop i xs) ! 0 = xs ! i" "take 2 (drop i xs) ! 1 = xs ! (i + 1)"
    by simp_all
  with e l show "i + 1 < length xs \<and> xs ! i = 0xAB \<and> xs ! (i + 1) = 0xCD" by simp
next
  assume r: "i + 1 < length xs \<and> xs ! i = 0xAB \<and> xs ! (i + 1) = 0xCD"
  have "take 2 (drop i xs) = [0xAB, 0xCD]"
  proof (rule nth_equalityI)
    show "length (take 2 (drop i xs)) = length [0xAB, 0xCD :: byte]" using r by auto
    fix j assume "j < length (take 2 (drop i xs))"
    then have "j = 0 \<or> j = 1" by auto
    then show "take 2 (drop i xs) ! j = [0xAB, 0xCD] ! j" using r by auto
  qed
  then show "startswith (drop i xs) start_marker"
    by (simp add: startswith_def start_marker_bytes numeral_2_eq_2)
qed

lemma bytes_in_marker_iff:
  "bytes_in start_marker xs \<longleftrightarrow> (\<exists>i. i + 1 < length xs \<and> xs ! i = 0xAB \<and> xs ! (i + 1) = 0xCD)"
proof -
  have "bytes_in start_marker xs \<longleftrightarrow> (\<exists>j\<le>length xs. startswith (drop j xs) start_marker)"
    by (simp add: bytes_in_def find_bytes_None_iff)
  also have "\<dots> \<longleftrightarrow> (\<exists>i. i + 1 < length xs \<and> xs ! i = 0xAB \<and> xs ! (i + 1) = 0xCD)"
    unfolding startswith_drop_marker_iff by (meson less_imp_le_nat add_lessD1)
  finally show ?thesis .
qed

lemma frame_first_byte: "startswith F start_marker \<Longrightarrow> 1 < length F \<and> F ! 0 = 0xAB \<and> F ! 1 = 0xCD"
  using startswith_drop_marker_iff [of 0 F] by simp

lemma no_marker_drop: "\<not> bytes_in start_marker G \<Longrightarrow> \<not> bytes_in start_marker (drop k G)"
  unfolding bytes_in_marker_iff
proof (rule notI, elim exE conjE)
  fix i
  assume n: "\<not> (\<exists>i. i + 1 < length G \<and> G ! i = 0xAB \<and> G ! (i + 1) = 0xCD)"
    and i: "i + 1 < length (drop k G)" "drop k G ! i = 0xAB" "drop k G ! (i + 1) = 0xCD"
  from i have "k + i + 1 < length G" "G ! (k + i) = 0xAB" "G ! (k + i + 1) = 0xCD"
    by (simp_all add: add.assoc)
  with n show False by blast
qed

lemma no_marker_before_frame:
  assumes G: "\<not> bytes_in start_marker G" and F: "startswith F start_marker" and i: "i < length G"
  shows "\<not> startswith (drop i (G @ F)) start_marker"
proof
  assume "startswith (drop i (G @ F)) start_marker"
  then have m: "(G @ F) ! i = 0xAB" "(G @ F) ! (i + 1) = 0xCD"
    unfolding startswith_drop_marker_iff by simp_all
  show False
  proof (cases "i + 1 < length G")
    case True
    with m have "G ! i = 0xAB" "G ! (i + 1) = 0xCD" by (simp_all add: nth_append)
    with True G show False unfolding bytes_in_marker_iff by blast
  next
    case False
    with i have "i + 1 = length G" by simp
    with m(2) have "F ! 0 = 0xCD" by (simp add: nth_append)
    with frame_first_byte [OF F] show False by simp
  qed
qed

lemma clean_garbage_then_frame:
  assumes "length F = 37" "startswith F start_marker" "passes_checks F"
    and "\<not> bytes_in start_marker G"
  shows "stream_loop outlet (G @ F) = Inr (outlet @ [map microvolts (decode_channels F)], [])"
  using assms by (intro garbage_then_frame) (auto dest: no_marker_before_frame)

section \<open>A stream cut into successive reads\<close>

lemma split_lengths: "X @ Y = G @ F \<Longrightarrow> length X + length Y = length G + length F"
proof -
  assume "X @ Y = G @ F"
  then have "length (X @ Y) = length (G @ F)" by (rule arg_cong)
  then show ?thesis by simp
qed

lemma split_nth: "X @ Y = G @ F \<Longrightarrow> j < length X \<Longrightarrow> X ! j = (G @ F) ! j"
  using nth_append [of X Y j] by simp

lemma split_short:
  assumes "X @ Y = G @ F" "length X \<le> length G"
  shows "X = take (length X) G" "Y = drop (length X) G @ F"
proof -
  have "take (length X) (X @ Y) = take (length X) (G @ F)" by (simp only: assms(1))
  then show "X = take (length X) G" using assms(2) by simp
  have "drop (length X) (X @ Y) = drop (length X) (G @ F)" by (simp only: assms(1))
  then show "Y = drop (length X) G @ F" using assms(2) by simp
qed

lemma split_long:
  assumes "X @ Y = G @ F" "length G \<le> length X"
  shows "X = G @ take (length X - length G) F" "Y = drop (length X - length G) F"
proof -
  have "take (length X) (X @ Y) = take (length X) (G @ F)" by (simp only: assms(1))
  then show "X = G @ take (length X - length G) F" using assms(2) by simp
  have "drop (length X) (X @ Y) = drop (length X) (G @ F)" by (simp only: assms(1))
  then show "Y = drop (length X - length G) F" using assms(2) by simp
qed

lemma drop_take_drop: "k \<le> m \<Longrightarrow> m \<le> length G \<Longrightarrow> drop k (take m G) @ drop m G = drop k G"
proof -
  assume a: "k \<le> m" "m \<le> length G"
  have "drop k G = drop k (take m G @ drop m G)" by simp
  also have "\<dots> = drop k (take m G) @ drop m G" using a by (simp del: append_take_drop_id)
  finally show ?thesis by simp
qed

lemma stream_loop_partial:
  assumes F: "length F = 37" "startswith F start_marker"
    and G: "\<not> bytes_in start_marker G"
    and split: "X @ Y = G @ F" and Y: "Y \<noteq> []"
  shows "\<exists>X' G'. stream_loop outlet X = Inr (outlet, X') \<and> X' @ Y = G' @ F \<and>
           \<not> bytes_in start_marker G'"
proof -
  from split_lengths [OF split] Y F(1) have lx: "length X < length G + 37"
    by (cases Y) simp_all
  note nth = split_nth [OF split]
  show ?thesis
  proof (cases "find_bytes X start_marker")
    case None
    then have loop: "stream_loop outlet X = Inr (outlet, last_slice X)"
      by (rule stream_loop_no_marker)
    show ?thesis
    proof (cases "length X \<le> length G")
      case True
      note X = split_short [OF split True]
      have "drop (length X - 1) (take (length X) G) @ drop (length X) G = drop (length X - 1) G"
        using True by (intro drop_take_drop) simp_all
      moreover have "last_slice X = drop (length X - 1) (take (length X) G)"
        unfolding last_slice_def using X(1) by simp
      ultimately have "last_slice X @ Y = drop (length X - 1) G @ F"
        using X(2) by simp
      with loop no_marker_drop [OF G] show ?thesis by blast
    next
      case False
      then have gl: "length G < length X" by simp
      have no: "\<not> (length G + 1 < length X)"
      proof
        assume a: "length G + 1 < length X"
        then have "X ! length G = (G @ F) ! length G" "X ! (length G + 1) = (G @ F) ! (length G + 1)"
          by (simp_all add: nth)
        with frame_first_byte [OF F(2)]
        have "X ! length G = 0xAB" "X ! (length G + 1) = 0xCD"
          by (simp_all add: nth_append)
        with a have "bytes_in start_marker X" unfolding bytes_in_marker_iff by blast
        with None show False by (simp add: bytes_in_def)
      qed
      with gl have lX: "length X - length G = 1" by simp
      from gl have "length G \<le> length X" by simp
      note X = split_long [OF split this, unfolded lX]
      from frame_first_byte [OF F(2)] have "take 1 F \<noteq> []" by (cases F) simp_all
      then have "last_slice (G @ take 1 F) = take 1 F"
        using F(1) by (simp add: last_slice_def)
      with X have "last_slice X @ Y = [] @ F" by simp
      moreover have "\<not> bytes_in start_marker ([] :: byte list)"
        by (simp add: bytes_in_def start_marker_bytes)
      ultimately show ?thesis using loop by blast
    qed
  next
    case (Some i)
    then have at: "startswith (drop i X) start_marker" by (simp add: find_bytes_Some_iff)
    then have m: "i + 1 < length X" "X ! i = 0xAB" "X ! (i + 1) = 0xCD"
      by (simp_all add: startswith_drop_marker_iff)
    have "length G \<le> i"
    proof (rule ccontr)
      assume "\<not> length G \<le> i"
      then have i: "i < length G" by simp
      from m nth [of i] nth [of "i + 1"] have "(G @ F) ! i = 0xAB" "(G @ F) ! (i + 1) = 0xCD"
        by simp_all
      moreover from m lx have "i + 1 < length (G @ F)" using F(1) by simp
      ultimately have "startswith (drop i (G @ F)) start_marker"
        unfolding startswith_drop_marker_iff by blast
      with no_marker_before_frame [OF G F(2) i] show False by blast
    qed
    with lx have "length X < i + 37" by simp
    from stream_loop_wait [OF Some this] have "stream_loop outlet X = Inr (outlet, X)" .
    with split G show ?thesis by blast
  qed
qed

lemma run_reads_all_empty: "concat chunks = [] \<Longrightarrow> run_reads st chunks = Inr st"
  by (induction chunks arbitrary: st) (auto simp: read_and_parse_def split: prod.splits)

lemma run_reads_clean_garbage_then_frame:
  assumes F: "length F = 37" "startswith F start_marker" "passes_checks F"
  shows "\<not> bytes_in start_marker G \<Longrightarrow> b @ concat chunks = G @ F \<Longrightarrow> concat chunks \<noteq> [] \<Longrightarrow>
         run_reads (outlet, b) chunks = Inr (outlet @ [map microvolts (decode_channels F)], [])"
proof (induction chunks arbitrary: b G)
  case Nil
  then show ?case by simp
next
  case (Cons c cs)
  show ?case
  proof (cases "c = []")
    case True
    with Cons.prems Cons.IH [of G b] show ?thesis by (simp add: read_and_parse_def)
  next
    case False
    then have rp: "read_and_parse (outlet, b) c = stream_loop outlet (b @ c)"
      by (simp add: read_and_parse_def)
    show ?thesis
    proof (cases "concat cs = []")
      case True
      with Cons.prems have "b @ c = G @ F" by simp
      with clean_garbage_then_frame [OF F Cons.prems(1), of outlet]
      have "stream_loop outlet (b @ c) = Inr (outlet @ [map microvolts (decode_channels F)], [])"
        by simp
      with rp run_reads_all_empty [OF True] show ?thesis by simp
    next
      case False
      from Cons.prems have "(b @ c) @ concat cs = G @ F" by simp
      from stream_loop_partial [OF F(1,2) Cons.prems(1) this False, of outlet]
      obtain X' G' where "stream_loop outlet (b @ c) = Inr (outlet, X')"
        "X' @ concat cs = G' @ F" "\<not> bytes_in start_marker G'" by blast
      with rp Cons.IH [of G' X'] False show ?thesis by simp
    qed
  qed
qed

section \<open>A start marker inside unframed data\<close>

text \<open>
  C3, as stated, fails.  The stream is five bytes of unframed data that begin with the
  start-marker pair, followed by one genuine valid frame whose payload happens to carry
  \<open>78 DC BA\<close> at offsets 27..29.  The 37-byte window at the spurious marker then ends
  with the end marker and its checksum byte agrees, so the loop pushes a sample decoded at
  the wrong offset (all channels zero), consumes 37 bytes, and is left with the last byte
  of the genuine frame, which is never emitted.
\<close>

theorem false_marker_counterexample:
  "length (replicate 27 0 @ [0x78, 0xDC, 0xBA, 0, 0 :: byte]) = 32 \<and>
   bytes_in start_marker [0xAB, 0xCD, 0, 0, 0] \<and>
   stream_loop [] ([0xAB, 0xCD, 0, 0, 0] @ raw_frame (replicate 27 0 @ [0x78, 0xDC, 0xBA, 0, 0])) =
     Inr ([map microvolts [0, 0, 0, 0, 0, 0, 0, 0]], [0xBA]) \<and>
   decode_channels (raw_frame (replicate 27 0 @ [0x78, 0xDC, 0xBA, 0, 0])) =
     [0, 0, 0, 0, 0, 0, 30940, - 4587520] \<and>
   stream_loop [] ([0xAB, 0xCD, 0, 0, 0] @ raw_frame (replicate 27 0 @ [0x78, 0xDC, 0xBA, 0, 0])) \<noteq>
     Inr ([map microvolts (decode_channels (raw_frame (replicate 27 0 @ [0x78, 0xDC, 0xBA, 0, 0])))], [])"
proof -
  let ?P = "replicate 27 0 @ [0x78, 0xDC, 0xBA, 0, 0 :: byte]"
  let ?B = "[0xAB, 0xCD, 0, 0, 0] @ raw_frame ?P"
  have B: "?B = [0xAB, 0xCD, 0, 0, 0, 0xAB, 0xCD,
                 0, 0, 0, 0, 0, 0, 0, 0, 0, 0, 0, 0, 0, 0, 0, 0, 0, 0, 0, 0, 0, 0, 0, 0, 0, 0, 0,
                 0x78, 0xDC, 0xBA, 0, 0, 0x0E, 0xDC, 0xBA]"
    by (simp add: raw_frame_def sum_bytes_def start_marker_bytes end_marker_bytes replicate_numeral_aux)
  have f: "find_bytes ?B start_marker = Some 0"
    unfolding B by (simp add: startswith_def start_marker_bytes)
  have l: "0 + 37 \<le> length ?B" unfolding B by simp
  have w: "slice 0 (0 + 37) ?B = [0xAB, 0xCD, 0, 0, 0, 0xAB, 0xCD,
                 0, 0, 0, 0, 0, 0, 0, 0, 0, 0, 0, 0, 0, 0, 0, 0, 0, 0, 0, 0, 0, 0, 0, 0, 0, 0, 0,
                 0x78, 0xDC, 0xBA]"
    unfolding B by (simp add: slice_def)
  have p: "passes_checks (slice 0 (0 + 37) ?B)"
    unfolding w
    by (simp add: passes_checks_def endswith_def end_marker_bytes slice_def sum_bytes_def
        PACKET_IDX_LENGTH_def PACKET_IDX_CHECKSUM_def and_255_mod)
  have d: "decode_channels (slice 0 (0 + 37) ?B) = [0, 0, 0, 0, 0, 0, 0, 0]"
    unfolding w
    by (simp add: decode_channels_def channel_value_def slice_def ADS1299_NUM_CHANNELS_def
        ADS1299_NUM_STATUS_BYTES_def ADS1299_BYTES_PER_CHANNEL_def upt_rec from_bytes3)
  have r: "drop (0 + 37) ?B = [0, 0, 0x0E, 0xDC, 0xBA]" unfolding B by simp
  have n: "find_bytes [0, 0, 0x0E, 0xDC, 0xBA :: byte] start_marker = None"
    by (simp add: startswith_def start_marker_bytes)
  have "stream_loop [] ?B = Inr ([map microvolts [0, 0, 0, 0, 0, 0, 0, 0]], [0xBA])"
    unfolding stream_loop_emit [OF f l p] d r stream_loop_no_marker [OF n]
    by (simp add: last_slice_def)
  moreover have "decode_channels (raw_frame ?P) = [0, 0, 0, 0, 0, 0, 30940, - 4587520]"
    by (simp add: decode_channels_raw_frame slice_def upt_rec from_bytes3 replicate_numeral_aux)
  moreover have "bytes_in start_marker [0xAB, 0xCD, 0, 0, 0]"
    by (simp add: bytes_in_def startswith_def start_marker_bytes)
  ultimately show ?thesis by simp
qed


text \<open>
  C3, amended: whenever the loop finds a start marker whose full 37-byte window fails the
  end-marker or the checksum test, it goes on with the buffer cut exactly one byte past
  the found marker position and the outlet unchanged.  Consequently a stream of arbitrary
  data \<open>G\<close> followed by one genuine valid frame yields exactly one pushed sample, the
  genuine one, with the buffer left empty, provided that no start-marker occurrence inside
  \<open>G\<close> opens a 37-byte window that itself passes both tests.
\<close>

theorem false_marker_recovery:
  "(find_bytes buffer start_marker = Some start_idx \<and> start_idx + 37 \<le> length buffer \<and>
    \<not> passes_checks (slice start_idx (start_idx + 37) buffer) \<longrightarrow>
      stream_loop outlet buffer = stream_loop outlet (drop (start_idx + 1) buffer)) \<and>
   (length P = 32 \<and>
    (\<forall>i<length G. startswith (drop i (G @ raw_frame P)) start_marker \<longrightarrow>
        \<not> passes_checks (slice i (i + 37) (G @ raw_frame P))) \<longrightarrow>
      stream_loop outlet (G @ raw_frame P) =
        Inr (outlet @ [map microvolts (decode_channels (raw_frame P))], []))"
proof (intro conjI impI)
  assume "find_bytes buffer start_marker = Some start_idx \<and> start_idx + 37 \<le> length buffer \<and>
    \<not> passes_checks (slice start_idx (start_idx + 37) buffer)"
  then show "stream_loop outlet buffer = stream_loop outlet (drop (start_idx + 1) buffer)"
    by (intro stream_loop_skip) simp_all
next
  assume a: "length P = 32 \<and>
    (\<forall>i<length G. startswith (drop i (G @ raw_frame P)) start_marker \<longrightarrow>
        \<not> passes_checks (slice i (i + 37) (G @ raw_frame P)))"
  then have len: "length P = 32" by simp
  from a show "stream_loop outlet (G @ raw_frame P) =
        Inr (outlet @ [map microvolts (decode_channels (raw_frame P))], [])"
    by (intro garbage_then_frame length_raw_frame startswith_raw_frame passes_checks_raw_frame len)
       simp
qed

theorem false_marker_recovery_witness:
  "find_bytes ([0xAB, 0xCD, 0, 0, 0] @ raw_frame (replicate 27 0 @ [0x79, 0xDC, 0xBA, 0, 0]))
     start_marker = Some 0 \<and>
   endswith (slice 0 37 ([0xAB, 0xCD, 0, 0, 0] @ raw_frame (replicate 27 0 @ [0x79, 0xDC, 0xBA, 0, 0])))
     end_marker \<and>
   \<not> passes_checks
       (slice 0 37 ([0xAB, 0xCD, 0, 0, 0] @ raw_frame (replicate 27 0 @ [0x79, 0xDC, 0xBA, 0, 0]))) \<and>
   stream_loop [] ([0xAB, 0xCD, 0, 0, 0] @ raw_frame (replicate 27 0 @ [0x79, 0xDC, 0xBA, 0, 0])) =
     stream_loop []
       (drop 1 ([0xAB, 0xCD, 0, 0, 0] @ raw_frame (replicate 27 0 @ [0x79, 0xDC, 0xBA, 0, 0]))) \<and>
   stream_loop [] ([0xAB, 0xCD, 0, 0, 0] @ raw_frame (replicate 27 0 @ [0x79, 0xDC, 0xBA, 0, 0])) =
     Inr ([map microvolts [0, 0, 0, 0, 0, 0, 31196, - 4587520]], [])"
proof -
  let ?P = "replicate 27 0 @ [0x79, 0xDC, 0xBA, 0, 0 :: byte]"
  let ?G = "[0xAB, 0xCD, 0, 0, 0 :: byte]"
  let ?B = "?G @ raw_frame ?P"
  have len: "length ?P = 32" by simp
  have B: "?B = [0xAB, 0xCD, 0, 0, 0, 0xAB, 0xCD,
                 0, 0, 0, 0, 0, 0, 0, 0, 0, 0, 0, 0, 0, 0, 0, 0, 0, 0, 0, 0, 0, 0, 0, 0, 0, 0, 0,
                 0x79, 0xDC, 0xBA, 0, 0, 0x0F, 0xDC, 0xBA]"
    by (simp add: raw_frame_def sum_bytes_def start_marker_bytes end_marker_bytes replicate_numeral_aux)
  have f: "find_bytes ?B start_marker = Some 0"
    unfolding B by (simp add: startswith_def start_marker_bytes)
  have l: "0 + 37 \<le> length ?B" unfolding B by simp
  have w: "slice 0 (0 + 37) ?B = [0xAB, 0xCD, 0, 0, 0, 0xAB, 0xCD,
                 0, 0, 0, 0, 0, 0, 0, 0, 0, 0, 0, 0, 0, 0, 0, 0, 0, 0, 0, 0, 0, 0, 0, 0, 0, 0, 0,
                 0x79, 0xDC, 0xBA]"
    unfolding B by (simp add: slice_def)
  have e: "endswith (slice 0 (0 + 37) ?B) end_marker"
    unfolding w by (simp add: endswith_def end_marker_bytes)
  have p: "\<not> passes_checks (slice 0 (0 + 37) ?B)"
    unfolding w
    by (simp add: passes_checks_def endswith_def end_marker_bytes slice_def sum_bytes_def
        PACKET_IDX_LENGTH_def PACKET_IDX_CHECKSUM_def and_255_mod)
  have others: "\<not> startswith (drop 1 ?B) start_marker" "\<not> startswith (drop 2 ?B) start_marker"
    "\<not> startswith (drop 3 ?B) start_marker" "\<not> startswith (drop 4 ?B) start_marker"
    unfolding B by (simp_all add: startswith_def start_marker_bytes)
  have hyp: "\<forall>i<length ?G. startswith (drop i ?B) start_marker \<longrightarrow>
               \<not> passes_checks (slice i (i + 37) ?B)"
  proof (intro allI impI)
    fix i assume "i < length ?G" and s: "startswith (drop i ?B) start_marker"
    then have "i = 0 \<or> i = 1 \<or> i = 2 \<or> i = 3 \<or> i = 4" by (simp add: less_Suc_eq) arith
    with s others have "i = 0" by blast
    with p show "\<not> passes_checks (slice i (i + 37) ?B)" by simp
  qed
  have d: "decode_channels (raw_frame ?P) = [0, 0, 0, 0, 0, 0, 31196, - 4587520]"
    by (simp add: decode_channels_raw_frame slice_def upt_rec from_bytes3 replicate_numeral_aux)
  note inst = false_marker_recovery [of ?B 0 "[]" ?P ?G]
  from inst f l p have "stream_loop [] ?B = stream_loop [] (drop (0 + 1) ?B)" by blast
  moreover from inst len hyp
  have "stream_loop [] ?B = Inr ([] @ [map microvolts (decode_channels (raw_frame ?P))], [])"
    by blast
  ultimately show ?thesis using f e p d by simp
qed

section \<open>Garbage without a start marker before a frame\<close>

text \<open>
  C4: \<open>K\<close> arbitrary bytes \<open>G\<close> that do not contain the start marker, followed by one
  valid 37-byte frame, make the loop push exactly one sample (that of the frame) and leave
  the buffer empty, so exactly \<open>K + 37\<close> bytes are consumed, for every \<open>K\<close>.  This holds
  when the stream arrives as one chunk and for every way of cutting it into successive
  reads, empty reads included.
\<close>

theorem garbage_prefix_consumed:
  "length P = 32 \<Longrightarrow> \<not> bytes_in start_marker G \<Longrightarrow> concat chunks = G @ raw_frame P \<Longrightarrow>
     run_reads ([], []) chunks = Inr ([map microvolts (decode_channels (raw_frame P))], []) \<and>
     read_and_parse ([], []) (G @ raw_frame P) =
       Inr ([map microvolts (decode_channels (raw_frame P))], []) \<and>
     length (G @ raw_frame P) = length G + 37"
proof -
  assume len: "length P = 32" and G: "\<not> bytes_in start_marker G"
    and c: "concat chunks = G @ raw_frame P"
  note F = length_raw_frame [OF len] startswith_raw_frame [of P] passes_checks_raw_frame [OF len]
  from F(1) have ne: "G @ raw_frame P \<noteq> []" by auto
  have "run_reads ([], []) chunks = Inr ([] @ [map microvolts (decode_channels (raw_frame P))], [])"
    using c ne by (intro run_reads_clean_garbage_then_frame [OF F G]) simp_all
  moreover have "read_and_parse ([], []) (G @ raw_frame P) =
      Inr ([] @ [map microvolts (decode_channels (raw_frame P))], [])"
    using ne clean_garbage_then_frame [OF F G, of "[]"] by (simp add: read_and_parse_def)
  ultimately show ?thesis using F(1) by simp
qed

theorem garbage_prefix_consumed_witness:
  "\<not> bytes_in start_marker [0x01, 0xAB, 0x02, 0xCD, 0xAB] \<and>
   run_reads ([], [])
     [take 3 ([0x01, 0xAB, 0x02, 0xCD, 0xAB] @ raw_frame (replicate 32 0x11)), [],
      take 20 (drop 3 ([0x01, 0xAB, 0x02, 0xCD, 0xAB] @ raw_frame (replicate 32 0x11))),
      drop 23 ([0x01, 0xAB, 0x02, 0xCD, 0xAB] @ raw_frame (replicate 32 0x11))] =
     Inr ([map microvolts (decode_channels (raw_frame (replicate 32 0x11)))], []) \<and>
   read_and_parse ([], []) ([0x01, 0xAB, 0x02, 0xCD, 0xAB] @ raw_frame (replicate 32 0x11)) =
     Inr ([map microvolts (decode_channels (raw_frame (replicate 32 0x11)))], []) \<and>
   length ([0x01, 0xAB, 0x02, 0xCD, 0xAB] @ raw_frame (replicate 32 0x11)) = 42"
proof -
  let ?G = "[0x01, 0xAB, 0x02, 0xCD, 0xAB :: byte]"
  let ?P = "replicate 32 (0x11 :: byte)"
  let ?S = "?G @ raw_frame ?P"
  have len: "length ?P = 32" by simp
  have G: "\<not> bytes_in start_marker ?G"
    by (simp add: bytes_in_def startswith_def start_marker_bytes)
  have "take 20 (drop 3 ?S) @ drop 23 ?S = drop 3 ?S"
    using append_take_drop_id [of 20 "drop 3 ?S"] by (simp only: drop_drop) simp
  then have t: "take 3 ?S @ (take 20 (drop 3 ?S) @ drop 23 ?S) = ?S"
    by (simp only: append_take_drop_id)
  have "concat [take 3 ?S, [], take 20 (drop 3 ?S), drop 23 ?S] =
      take 3 ?S @ (take 20 (drop 3 ?S) @ drop 23 ?S)"
    by (simp only: concat.simps append_Nil append_Nil2)
  from this t have c: "concat [take 3 ?S, [], take 20 (drop 3 ?S), drop 23 ?S] = ?S"
    by (rule trans)
  from garbage_prefix_consumed [OF len G c] G show ?thesis by simp
qed

section \<open>The bounded queue of the WiFi bridge\<close>

lemma length_queue_put: "length q \<le> 500 \<Longrightarrow> length (queue_put q x) \<le> 500"
  by (simp add: queue_put_def Let_def)

lemma queue_put_full: "length q = 500 \<Longrightarrow> queue_put q x = tl q @ [x]"
  by (cases q) (simp_all add: queue_put_def Let_def)

lemma queue_put_room: "length q < 500 \<Longrightarrow> queue_put q x = q @ [x]"
  by (simp add: queue_put_def Let_def)

lemma foldl_queue_put:
  "length q \<le> 500 \<Longrightarrow> foldl queue_put q xs = drop (length q + length xs - 500) (q @ xs)"
proof (induction xs arbitrary: q)
  case Nil
  then show ?case by simp
next
  case (Cons x xs)
  show ?case
  proof (cases "length q = 500")
    case True
    then obtain y ys where q: "q = y # ys" by (cases q) auto
    with True have l: "length ys = 499" by simp
    have "foldl queue_put q (x # xs) = foldl queue_put (ys @ [x]) xs"
      using queue_put_full [OF True, of x] q by simp
    also have "\<dots> = drop (length (ys @ [x]) + length xs - 500) ((ys @ [x]) @ xs)"
      using l by (intro Cons.IH) simp
    also have "\<dots> = drop (length q + length (x # xs) - 500) (q @ x # xs)"
      using l q by simp
    finally show ?thesis .
  next
    case False
    with Cons.prems have lt: "length q < 500" by simp
    have "foldl queue_put q (x # xs) = foldl queue_put (q @ [x]) xs"
      using queue_put_room [OF lt, of x] by simp
    also have "\<dots> = drop (length (q @ [x]) + length xs - 500) ((q @ [x]) @ xs)"
      using lt by (intro Cons.IH) simp
    finally show ?thesis by simp
  qed
qed

text \<open>
  C7: the queue update of \<^verbatim>\<open>serial_worker\<close> is a total function with no failure value
  (the lock is not modelled).  From a queue of at most 500 rows, any sequence of pushes
  with no drain leaves at most 500 rows; from the empty queue it leaves the last
  \<open>min 500 n\<close> of the \<open>n\<close> rows pushed, in push order, so 505 pushes leave exactly the
  last 500.
\<close>

theorem queue_drop_oldest:
  "(length q \<le> 500 \<longrightarrow> length (foldl queue_put q xs) \<le> 500) \<and>
   length (foldl queue_put [] xs) = min 500 (length xs) \<and>
   foldl queue_put [] xs = drop (length xs - 500) xs \<and>
   (length xs = 500 + 5 \<longrightarrow>
      length (foldl queue_put [] xs) = 500 \<and> foldl queue_put [] xs = drop 5 xs)"
proof -
  have a: "foldl queue_put [] xs = drop (length xs - 500) xs"
    using foldl_queue_put [of "[]" xs] by simp
  have "length (foldl queue_put q xs) \<le> 500" if "length q \<le> 500"
    using foldl_queue_put [OF that, of xs] by simp
  with a show ?thesis by auto
qed

theorem queue_drop_oldest_witness:
  "length (map (\<lambda>i. [JInt (int i)]) [0..<505]) = 500 + 5 \<and>
   length (foldl queue_put [] (map (\<lambda>i. [JInt (int i)]) [0..<505])) = 500 \<and>
   foldl queue_put [] (map (\<lambda>i. [JInt (int i)]) [0..<505]) = map (\<lambda>i. [JInt (int i)]) [5..<505] \<and>
   length ([] :: json_num list list) \<le> 500 \<and>
   length (foldl queue_put [] (map (\<lambda>i. [JInt (int i)]) [0..<505])) \<le> 500"
  using queue_drop_oldest [of "[]" "map (\<lambda>i. [JInt (int i)]) [0..<505]"]
  by (simp add: drop_map)

section \<open>The command listener of the virtual dongle\<close>

lemma chr_eq_iff: "chr b = c \<longleftrightarrow> unat b = of_char c"
proof -
  have "take_bit 8 (unat b) = unat b"
    using unsigned_less [of b, where ?'a = nat] by (simp add: take_bit_nat_eq_self_iff)
  then show ?thesis by (simp add: chr_def char_of_eq_iff)
qed

lemma chr_v: "chr 0x76 = CHR ''v''" and chr_b: "chr 0x62 = CHR ''b''" and chr_s: "chr 0x73 = CHR ''s''"
  and chr_1: "chr 0x31 = CHR ''1''" and chr_z: "chr 0x7A = CHR ''z''"
  by (simp_all add: chr_eq_iff)

lemma on_command_byte_not_close:
  "OsClose \<in> set (master_fd (on_command_byte st b)) \<longleftrightarrow> OsClose \<in> set (master_fd st)"
  by (simp add: on_command_byte_def Let_def)

lemma gui_command_listener_not_close:
  "OsClose \<in> set (master_fd (gui_command_listener st bs)) \<longleftrightarrow> OsClose \<in> set (master_fd st)"
  unfolding gui_command_listener_def
  by (induction bs arbitrary: st) (simp_all add: on_command_byte_not_close)

text \<open>
  C9: one command byte read by the listener.  \<open>v\<close> clears the streaming flag and writes
  the identity string; \<open>b\<close> sets the flag and writes nothing; \<open>s\<close> clears the flag and
  writes nothing; a byte of the acknowledgment set makes the listener write exactly one comma;
  any other byte leaves the state as it was.  No byte makes the listener close the endpoint.
\<close>

theorem command_state_machine:
  "(chr b = CHR ''v'' \<longrightarrow>
      gui_command_listener st [b] =
        st\<lparr>streaming_enabled := False, master_fd := master_fd st @ [OsWrite ID_STRING]\<rparr>) \<and>
   (chr b = CHR ''b'' \<longrightarrow> gui_command_listener st [b] = st\<lparr>streaming_enabled := True\<rparr>) \<and>
   (chr b = CHR ''s'' \<longrightarrow> gui_command_listener st [b] = st\<lparr>streaming_enabled := False\<rparr>) \<and>
   (chr b \<in> set ''xX12345678!@#$%^&*()qwertyuiop'' \<longrightarrow>
      gui_command_listener st [b] = st\<lparr>master_fd := master_fd st @ [OsWrite [0x2C]]\<rparr>) \<and>
   (chr b \<notin> set ''vbs'' \<union> set ''xX12345678!@#$%^&*()qwertyuiop'' \<longrightarrow>
      gui_command_listener st [b] = st) \<and>
   (OsClose \<in> set (master_fd (gui_command_listener st [b])) \<longleftrightarrow> OsClose \<in> set (master_fd st))"
proof (intro conjI impI)
  show "(OsClose \<in> set (master_fd (gui_command_listener st [b]))) = (OsClose \<in> set (master_fd st))"
    by (rule gui_command_listener_not_close)
qed (auto simp: gui_command_listener_def on_command_byte_def Let_def)

theorem command_state_machine_witness:
  "gui_command_listener \<lparr>streaming_enabled = True, packet_counter = 7, sample_index = 3, master_fd = []\<rparr> [0x76] =
     \<lparr>streaming_enabled = False, packet_counter = 7, sample_index = 3, master_fd = [OsWrite ID_STRING]\<rparr> \<and>
   gui_command_listener \<lparr>streaming_enabled = False, packet_counter = 7, sample_index = 3, master_fd = []\<rparr> [0x62] =
     \<lparr>streaming_enabled = True, packet_counter = 7, sample_index = 3, master_fd = []\<rparr> \<and>
   gui_command_listener \<lparr>streaming_enabled = True, packet_counter = 7, sample_index = 3, master_fd = []\<rparr> [0x73] =
     \<lparr>streaming_enabled = False, packet_counter = 7, sample_index = 3, master_fd = []\<rparr> \<and>
   gui_command_listener \<lparr>streaming_enabled = True, packet_counter = 7, sample_index = 3, master_fd = []\<rparr> [0x31] =
     \<lparr>streaming_enabled = True, packet_counter = 7, sample_index = 3, master_fd = [OsWrite [0x2C]]\<rparr> \<and>
   gui_command_listener \<lparr>streaming_enabled = True, packet_counter = 7, sample_index = 3, master_fd = []\<rparr> [0x7A] =
     \<lparr>streaming_enabled = True, packet_counter = 7, sample_index = 3, master_fd = []\<rparr>"
proof -
  let ?on = "\<lparr>streaming_enabled = True, packet_counter = 7, sample_index = 3, master_fd = []\<rparr>"
  let ?off = "\<lparr>streaming_enabled = False, packet_counter = 7, sample_index = 3, master_fd = []\<rparr>"
  have z: "CHR ''z'' \<notin> set ''vbs'' \<union> set ''xX12345678!@#$%^&*()qwertyuiop''" by simp
  have o: "CHR ''1'' \<in> set ''xX12345678!@#$%^&*()qwertyuiop''" by simp
  from command_state_machine [of "0x76" ?on] have "gui_command_listener ?on [0x76] =
      ?on\<lparr>streaming_enabled := False, master_fd := master_fd ?on @ [OsWrite ID_STRING]\<rparr>"
    unfolding chr_v by blast
  moreover from command_state_machine [of "0x62" ?off]
  have "gui_command_listener ?off [0x62] = ?off\<lparr>streaming_enabled := True\<rparr>"
    unfolding chr_b by blast
  moreover from command_state_machine [of "0x73" ?on]
  have "gui_command_listener ?on [0x73] = ?on\<lparr>streaming_enabled := False\<rparr>"
    unfolding chr_s by blast
  moreover from command_state_machine [of "0x31" ?on] o
  have "gui_command_listener ?on [0x31] = ?on\<lparr>master_fd := master_fd ?on @ [OsWrite [0x2C]]\<rparr>"
    unfolding chr_1 by blast
  moreover from command_state_machine [of "0x7A" ?on] z
  have "gui_command_listener ?on [0x7A] = ?on"
    unfolding chr_z by blast
  ultimately show ?thesis by simp
qed

section \<open>The parse loop of the virtual dongle\<close>

lemma dongle_loop_empty: "dongle_loop ratio st [] = Inr (st, [])"
  by (subst dongle_loop.simps) (simp add: start_marker_bytes)

lemma dongle_loop_front:
  assumes "well_framed w"
  shows "dongle_loop ratio st (w @ rest) =
           (case on_packet ratio st w of Inl e \<Rightarrow> Inl e | Inr st' \<Rightarrow> dongle_loop ratio st' rest)"
proof -
  from assms have w: "length w = 37" "startswith w start_marker" "endswith w end_marker"
    by (simp_all add: well_framed_def)
  from w(1,2) have "startswith (w @ rest) start_marker"
    by (simp add: startswith_def start_marker_bytes)
  then have f: "find_bytes (w @ rest) start_marker = Some 0" by (rule find_bytes_startswith)
  have s: "slice 0 37 (w @ rest) = w" using w(1) by (simp add: slice_def)
  have d: "drop 37 (w @ rest) = rest" using w(1) by simp
  show ?thesis
    by (subst dongle_loop.simps) (simp add: f RAW_SIZE_def s d w(1,3) cong: sum.case_cong)
qed

lemma dongle_loop_frames:
  "(\<And>w. w \<in> set ws \<Longrightarrow> well_framed w) \<Longrightarrow>
   dongle_loop ratio st (concat ws @ rest) =
     (case on_packets ratio st ws of Inl e \<Rightarrow> Inl e | Inr st' \<Rightarrow> dongle_loop ratio st' rest)"
proof (induction ws arbitrary: st)
  case Nil
  then show ?case by simp
next
  case (Cons w ws)
  have "dongle_loop ratio st (concat (w # ws) @ rest) = dongle_loop ratio st (w @ (concat ws @ rest))"
    by simp
  also have "\<dots> = (case on_packet ratio st w of Inl e \<Rightarrow> Inl e
                    | Inr st' \<Rightarrow> dongle_loop ratio st' (concat ws @ rest))"
    using Cons.prems by (intro dongle_loop_front) simp
  also have "\<dots> = (case on_packets ratio st (w # ws) of Inl e \<Rightarrow> Inl e
                    | Inr st' \<Rightarrow> dongle_loop ratio st' rest)"
    using Cons.IH Cons.prems by (simp split: sum.splits)
  finally show ?case .
qed

lemma on_packets_append:
  "on_packets ratio st (ws @ [w]) =
     (case on_packets ratio st ws of Inl e \<Rightarrow> Inl e | Inr st' \<Rightarrow> on_packet ratio st' w)"
  by (induction ws arbitrary: st) (simp_all split: sum.splits)

lemma on_packet_streaming:
  assumes "0 < N" "streaming_enabled st" "sample_index st < 256"
  shows "on_packet N st w =
     Inr (if (packet_counter st + 1) mod N = 0
          then st\<lparr>packet_counter := packet_counter st + 1,
                  master_fd := master_fd st @ [OsWrite (obci_frame (sample_index st) w)],
                  sample_index := (sample_index st + 1) mod 256\<rparr>
          else st\<lparr>packet_counter := packet_counter st + 1\<rparr>)"
  using assms
  by (simp add: on_packet_def Let_def obci_frame_def OBCI_START_BYTE_def OBCI_END_BYTE_def)

lemma on_packets_closed:
  assumes N: "0 < N"
  shows "on_packets N \<lparr>streaming_enabled = True, packet_counter = 0, sample_index = 0, master_fd = out\<rparr> ws =
     Inr \<lparr>streaming_enabled = True, packet_counter = length ws,
          sample_index = (length ws div N) mod 256,
          master_fd = out @ map (\<lambda>k. OsWrite (obci_frame k (ws ! ((k + 1) * N - 1))))
                             [0..<length ws div N]\<rparr>"
proof (induction ws rule: rev_induct)
  case Nil
  then show ?case by simp
next
  case (snoc w ws)
  define M where "M = length ws"
  define m where "m = M div N"
  define F where "F = (\<lambda>k. OsWrite (obci_frame k (ws ! ((k + 1) * N - 1))))"
  define F' where "F' = (\<lambda>k. OsWrite (obci_frame k ((ws @ [w]) ! ((k + 1) * N - 1))))"
  let ?init = "\<lparr>streaming_enabled = True, packet_counter = 0, sample_index = 0, master_fd = out\<rparr>"
  let ?st = "\<lparr>streaming_enabled = True, packet_counter = M, sample_index = m mod 256,
              master_fd = out @ map F [0..<m]\<rparr>"
  have idx: "(k + 1) * N - 1 < M" if "k < m" for k
  proof -
    from that have "(k + 1) * N \<le> m * N" by (intro mult_le_mono1) simp
    also have "\<dots> \<le> M" by (simp add: m_def)
    finally show ?thesis using N by (cases "(k + 1) * N") simp_all
  qed
  have old: "map F' [0..<m] = map F [0..<m]"
  proof (rule map_cong [OF refl])
    fix k assume "k \<in> set [0..<m]"
    then have "(k + 1) * N - 1 < length ws" unfolding M_def [symmetric] by (intro idx) simp
    then have "(ws @ [w]) ! ((k + 1) * N - 1) = ws ! ((k + 1) * N - 1)"
      by (simp only: nth_append if_True)
    then show "F' k = F k" by (simp only: F_def F'_def)
  qed
  have IH: "on_packets N ?init ws = Inr ?st"
    unfolding M_def m_def F_def by (rule snoc.IH)
  have step: "on_packets N ?init (ws @ [w]) = on_packet N ?st w"
    by (simp add: on_packets_append IH)
  have goal: "on_packet N ?st w =
     Inr \<lparr>streaming_enabled = True, packet_counter = Suc M,
          sample_index = (Suc M div N) mod 256,
          master_fd = out @ map F' [0..<Suc M div N]\<rparr>"
  proof (cases "Suc M mod N = 0")
    case True
    then have dv: "Suc M div N = Suc m" by (simp add: div_Suc m_def)
    from True have "Suc M = (Suc M div N) * N" by (metis mod_eq_0_iff_dvd dvd_div_mult_self)
    with dv have "(m + 1) * N - 1 = M" by simp
    then have "(ws @ [w]) ! ((m + 1) * N - 1) = w" by (simp add: M_def)
    then have new: "F' m = OsWrite (obci_frame m w)" by (simp only: F'_def)
    have fr: "obci_frame (m mod 256) w = obci_frame m w"
      by (simp add: obci_frame_def)
    have "map F' [0..<Suc m] = map F [0..<m] @ [OsWrite (obci_frame m w)]"
      by (simp add: old new)
    with True show ?thesis
      by (simp add: on_packet_streaming [OF N] dv fr mod_Suc_eq)
  next
    case False
    then have dv: "Suc M div N = m" by (simp add: div_Suc m_def)
    with False show ?thesis
      by (simp add: on_packet_streaming [OF N] dv old)
  qed
  show ?case
    unfolding step goal by (simp add: M_def F'_def)
qed

lemma length_obci_frame: "length w = 37 \<Longrightarrow> length (obci_frame k w) = 33"
  by (simp add: obci_frame_def slice_def)

lemma endswith_raw_frame: "endswith (raw_frame P) end_marker"
  by (simp add: raw_frame_def endswith_def start_marker_bytes end_marker_bytes)

lemma well_framed_raw_frame: "length P = 32 \<Longrightarrow> well_framed (raw_frame P)"
  by (simp add: well_framed_def length_raw_frame startswith_raw_frame endswith_raw_frame)

text \<open>
  C8: with a downsample ratio \<open>N \<ge> 1\<close>, the streaming flag set, and both counters at
  zero, \<open>M\<close> consecutive accepted windows make the dongle loop write exactly
  \<open>M div N\<close> frames and consume the whole input.  The \<open>k\<close>-th frame written (from 0)
  is built from accepted window number \<open>(k + 1) * N\<close>: byte \<open>A0\<close>, the index
  \<open>k mod 256\<close>, the window's 24 channel bytes \<open>[10:34]\<close> unchanged, 6 zero bytes and
  byte \<open>C0\<close>, 33 bytes in all.  (A ratio of zero raises \<^verbatim>\<open>ZeroDivisionError\<close>.)
\<close>

theorem virtual_serial_downsample:
  "0 < N \<Longrightarrow> \<forall>w\<in>set ws. well_framed w \<Longrightarrow>
   dongle_loop N
       \<lparr>streaming_enabled = True, packet_counter = 0, sample_index = 0, master_fd = out\<rparr>
       (concat ws) =
     Inr (\<lparr>streaming_enabled = True, packet_counter = length ws,
            sample_index = (length ws div N) mod 256,
            master_fd = out @ map (\<lambda>k. OsWrite (obci_frame k (ws ! ((k + 1) * N - 1))))
                               [0..<length ws div N]\<rparr>, []) \<and>
   length (map (\<lambda>k. OsWrite (obci_frame k (ws ! ((k + 1) * N - 1)))) [0..<length ws div N]) =
     length ws div N \<and>
   (\<forall>k<length ws div N. length (obci_frame k (ws ! ((k + 1) * N - 1))) = 33)"
proof (intro conjI allI impI)
  assume N: "0 < N" and wf: "\<forall>w\<in>set ws. well_framed w"
  let ?init = "\<lparr>streaming_enabled = True, packet_counter = 0, sample_index = 0, master_fd = out\<rparr>"
  have "dongle_loop N ?init (concat ws @ []) =
      (case on_packets N ?init ws of Inl e \<Rightarrow> Inl e | Inr st' \<Rightarrow> dongle_loop N st' [])"
    using wf by (intro dongle_loop_frames) simp
  then show "dongle_loop N ?init (concat ws) =
     Inr (\<lparr>streaming_enabled = True, packet_counter = length ws,
            sample_index = (length ws div N) mod 256,
            master_fd = out @ map (\<lambda>k. OsWrite (obci_frame k (ws ! ((k + 1) * N - 1))))
                               [0..<length ws div N]\<rparr>, [])"
    by (simp add: on_packets_closed [OF N] dongle_loop_empty)
  show "length (map (\<lambda>k. OsWrite (obci_frame k (ws ! ((k + 1) * N - 1)))) [0..<length ws div N]) =
     length ws div N" by simp
  fix k assume k: "k < length ws div N"
  then have "(k + 1) * N \<le> (length ws div N) * N" by (intro mult_le_mono1) simp
  also have "\<dots> \<le> length ws" by simp
  finally have "(k + 1) * N - 1 < length ws" using N by (cases "(k + 1) * N") simp_all
  with wf have "well_framed (ws ! ((k + 1) * N - 1))" by simp
  then show "length (obci_frame k (ws ! ((k + 1) * N - 1))) = 33"
    by (simp add: well_framed_def length_obci_frame)
qed

theorem virtual_serial_downsample_witness:
  "0 < DOWNSAMPLE_RATIO \<and>
   well_framed (raw_frame (replicate 32 1)) \<and> well_framed (raw_frame (replicate 32 2)) \<and>
   well_framed (raw_frame (replicate 32 3)) \<and>
   dongle_loop DOWNSAMPLE_RATIO
       \<lparr>streaming_enabled = True, packet_counter = 0, sample_index = 0, master_fd = []\<rparr>
       (concat [raw_frame (replicate 32 1), raw_frame (replicate 32 2), raw_frame (replicate 32 3)]) =
     Inr (\<lparr>streaming_enabled = True, packet_counter = 3, sample_index = 1,
            master_fd = [OsWrite ([0xA0, 0] @ replicate 24 2 @ replicate 6 0 @ [0xC0])]\<rparr>, []) \<and>
   length ([0xA0, 0] @ replicate 24 2 @ replicate 6 0 @ [0xC0 :: byte]) = 33"
proof -
  let ?ws = "[raw_frame (replicate 32 1), raw_frame (replicate 32 2), raw_frame (replicate 32 3)]"
  have N: "0 < DOWNSAMPLE_RATIO" by (simp add: DOWNSAMPLE_RATIO_def)
  have wf: "well_framed (raw_frame (replicate 32 1))" "well_framed (raw_frame (replicate 32 2))"
    "well_framed (raw_frame (replicate 32 3))"
    by (simp_all add: well_framed_raw_frame)
  then have all: "\<forall>w\<in>set ?ws. well_framed w" by simp
  have fr: "obci_frame 0 (raw_frame (replicate 32 2)) = [0xA0, 0] @ replicate 24 2 @ replicate 6 0 @ [0xC0]"
    by (simp add: obci_frame_def raw_frame_def slice_def start_marker_bytes)
  from virtual_serial_downsample [OF N all, of "[]"]
  have "dongle_loop DOWNSAMPLE_RATIO
       \<lparr>streaming_enabled = True, packet_counter = 0, sample_index = 0, master_fd = []\<rparr> (concat ?ws) =
     Inr (\<lparr>streaming_enabled = True, packet_counter = 3, sample_index = 1,
            master_fd = [OsWrite (obci_frame 0 (raw_frame (replicate 32 2)))]\<rparr>, [])"
    by (simp add: DOWNSAMPLE_RATIO_def)
  with N wf show ?thesis unfolding fr by simp
qed

section \<open>What the virtual dongle omits\<close>

lemma serial_worker_loop_no_marker:
  "find_bytes buffer start_marker = None \<Longrightarrow>
     serial_worker_loop clock st buffer = Inr (st, last_slice buffer)"
  by (subst serial_worker_loop.simps) (simp add: last_slice_def)

lemma serial_worker_loop_skip:
  "find_bytes buffer start_marker = Some start_idx \<Longrightarrow> start_idx + 37 \<le> length buffer \<Longrightarrow>
   \<not> passes_checks (slice start_idx (start_idx + 37) buffer) \<Longrightarrow>
   serial_worker_loop clock st buffer = serial_worker_loop clock st (drop (start_idx + 1) buffer)"
  by (subst serial_worker_loop.simps)
     (auto simp: DATA_PACKET_TOTAL_SIZE_def PACKET_IDX_CHECKSUM_def PACKET_IDX_LENGTH_def
        passes_checks_def py_index_def length_slice Let_def)

lemma serial_worker_loop_emit:
  "find_bytes buffer start_marker = Some start_idx \<Longrightarrow> start_idx + 37 \<le> length buffer \<Longrightarrow>
   passes_checks (slice start_idx (start_idx + 37) buffer) \<Longrightarrow>
   serial_worker_loop clock (calls, data_queue) buffer =
     serial_worker_loop clock
       (calls + 1,
        queue_put data_queue
          (map JInt (decode_channels (slice start_idx (start_idx + 37) buffer)) @
           [JInt 0, JInt 0, JInt 0] @ [JFloat (clock calls * 1000)]))
       (drop (start_idx + 37) buffer)"
  by (subst serial_worker_loop.simps)
     (auto simp: DATA_PACKET_TOTAL_SIZE_def PACKET_IDX_CHECKSUM_def PACKET_IDX_LENGTH_def
        passes_checks_def py_index_def length_slice Let_def)

lemma lsl_accepts_only_marker:
  "lsl_find_and_open_board ports = (Some port_name, closed_ports) \<Longrightarrow>
     \<exists>bs. (port_name, Burst bs) \<in> set ports \<and> bytes_in start_marker bs"
  by (induction ports arbitrary: closed_ports rule: lsl_find_and_open_board.induct)
     (auto split: if_splits prod.splits)

lemma wifi_accepts_only_marker:
  "wifi_find_and_open_board ports = (Some port_name, closed_ports) \<Longrightarrow>
     \<exists>bs. (port_name, Burst bs) \<in> set ports \<and> bytes_in start_marker bs"
  by (induction ports arbitrary: closed_ports rule: wifi_find_and_open_board.induct)
     (auto split: if_splits prod.splits)

text \<open>
  C6 does not hold of \<^verbatim>\<open>broken_cerelog_virtual_dongle.find_and_open_board\<close>: a
  one-byte burst without the start marker is accepted and the port is handed back, where
  the other two scripts (lemmas \<open>lsl_accepts_only_marker\<close>, \<open>wifi_accepts_only_marker\<close>)
  close that port and go on to the next candidate.
\<close>

theorem dongle_accepts_burst_without_marker:
  "\<not> bytes_in start_marker [0x00] \<and>
   dongle_find_and_open_board [(''COM3'', Burst [0x00]), (''COM4'', Burst (raw_frame (replicate 32 0)))] =
     (Some ''COM3'', []) \<and>
   lsl_find_and_open_board [(''COM3'', Burst [0x00]), (''COM4'', Burst (raw_frame (replicate 32 0)))] =
     (Some ''COM4'', [''COM3'']) \<and>
   wifi_find_and_open_board [(''COM3'', Burst [0x00]), (''COM4'', Burst (raw_frame (replicate 32 0)))] =
     (Some ''COM4'', [''COM3''])"
proof -
  have a: "\<not> bytes_in start_marker [0x00]"
    by (simp add: bytes_in_def startswith_def start_marker_bytes)
  have "startswith (raw_frame (replicate 32 0)) start_marker" by (rule startswith_raw_frame)
  then have b: "bytes_in start_marker (raw_frame (replicate 32 0))"
    by (simp add: bytes_in_def find_bytes_startswith)
  have c: "raw_frame (replicate 32 0) \<noteq> []"
    by (simp add: raw_frame_def start_marker_bytes)
  from a b c show ?thesis by simp
qed

text \<open>
  C1 does not hold of \<^verbatim>\<open>broken_cerelog_virtual_dongle.main\<close>: two 37-byte windows
  with both markers and a checksum byte that disagrees with the payload sum, read with
  streaming enabled, make the dongle write a 33-byte frame for the second one, where
  \<^verbatim>\<open>cerelog_lsl.main\<close> and \<^verbatim>\<open>serial_worker\<close> forward nothing (lemmas
  \<open>stream_loop_skip\<close>, \<open>serial_worker_loop_skip\<close>: a window that fails a test is
  skipped with the outlet and the queue unchanged).
\<close>

theorem dongle_forwards_bad_checksum:
  "\<not> passes_checks (start_marker @ replicate 32 0 @ [1] @ end_marker) \<and>
   dongle_loop DOWNSAMPLE_RATIO
       \<lparr>streaming_enabled = True, packet_counter = 0, sample_index = 0, master_fd = []\<rparr>
       ((start_marker @ replicate 32 0 @ [1] @ end_marker) @
        (start_marker @ replicate 32 0 @ [1] @ end_marker)) =
     Inr (\<lparr>streaming_enabled = True, packet_counter = 2, sample_index = 1,
            master_fd = [OsWrite ([0xA0, 0] @ replicate 24 0 @ replicate 6 0 @ [0xC0])]\<rparr>, []) \<and>
   stream_loop []
       ((start_marker @ replicate 32 0 @ [1] @ end_marker) @
        (start_marker @ replicate 32 0 @ [1] @ end_marker)) = Inr ([], [0xBA]) \<and>
   serial_worker_loop clock (0, [])
       ((start_marker @ replicate 32 0 @ [1] @ end_marker) @
        (start_marker @ replicate 32 0 @ [1] @ end_marker)) = Inr ((0, []), [0xBA])"
proof -
  let ?bad = "start_marker @ replicate 32 0 @ [1] @ end_marker"
  let ?init = "\<lparr>streaming_enabled = True, packet_counter = 0, sample_index = 0, master_fd = []\<rparr>"
  have bad: "?bad = [0xAB, 0xCD, 0, 0, 0, 0, 0, 0, 0, 0, 0, 0, 0, 0, 0, 0, 0, 0,
                     0, 0, 0, 0, 0, 0, 0, 0, 0, 0, 0, 0, 0, 0, 0, 0, 1, 0xDC, 0xBA]"
    by (simp add: start_marker_bytes end_marker_bytes replicate_numeral_aux)
  have np: "\<not> passes_checks ?bad"
    unfolding bad
    by (simp add: passes_checks_def endswith_def end_marker_bytes slice_def sum_bytes_def
        PACKET_IDX_LENGTH_def PACKET_IDX_CHECKSUM_def and_255_mod)
  have wf: "well_framed ?bad"
    unfolding bad by (simp add: well_framed_def startswith_def endswith_def start_marker_bytes end_marker_bytes)
  have fr: "obci_frame 0 ?bad = [0xA0, 0] @ replicate 24 0 @ replicate 6 0 @ [0xC0]"
    unfolding bad by (simp add: obci_frame_def slice_def replicate_numeral_aux)
  have "dongle_loop DOWNSAMPLE_RATIO ?init (concat [?bad, ?bad] @ []) =
      (case on_packets DOWNSAMPLE_RATIO ?init [?bad, ?bad] of Inl e \<Rightarrow> Inl e
       | Inr st' \<Rightarrow> dongle_loop DOWNSAMPLE_RATIO st' [])"
    using wf by (intro dongle_loop_frames) simp
  moreover have "on_packets DOWNSAMPLE_RATIO ?init [?bad, ?bad] =
      Inr \<lparr>streaming_enabled = True, packet_counter = 2, sample_index = 1,
            master_fd = [OsWrite (obci_frame 0 ?bad)]\<rparr>"
    using on_packets_closed [of DOWNSAMPLE_RATIO "[]" "[?bad, ?bad]"]
    by (simp add: DOWNSAMPLE_RATIO_def del: on_packets.simps)
  ultimately have d: "dongle_loop DOWNSAMPLE_RATIO ?init (?bad @ ?bad) =
     Inr (\<lparr>streaming_enabled = True, packet_counter = 2, sample_index = 1,
            master_fd = [OsWrite ([0xA0, 0] @ replicate 24 0 @ replicate 6 0 @ [0xC0])]\<rparr>, [])"
    unfolding fr by (simp add: dongle_loop_empty)
  let ?B = "?bad @ ?bad"
  have f0: "find_bytes ?B start_marker = Some 0"
    by (simp add: find_bytes_startswith startswith_def)
  have l0: "0 + 37 \<le> length ?B" unfolding bad by simp
  have w0: "slice 0 (0 + 37) ?B = ?bad" unfolding bad by (simp add: slice_def)
  have np0: "\<not> passes_checks (slice 0 (0 + 37) ?B)" unfolding w0 by (rule np)
  let ?B1 = "drop (0 + 1) ?B"
  have f1: "find_bytes ?B1 start_marker = Some 36"
    unfolding bad by (simp add: startswith_def start_marker_bytes)
  have l1: "36 + 37 \<le> length ?B1" unfolding bad by simp
  have w1: "slice 36 (36 + 37) ?B1 = ?bad" unfolding bad by (simp add: slice_def)
  have np1: "\<not> passes_checks (slice 36 (36 + 37) ?B1)" unfolding w1 by (rule np)
  let ?B2 = "drop (36 + 1) ?B1"
  have f2: "find_bytes ?B2 start_marker = None"
    unfolding bad by (simp add: startswith_def start_marker_bytes)
  have ls: "last_slice ?B2 = [0xBA]" unfolding bad by (simp add: last_slice_def)
  have s: "stream_loop [] ?B = Inr ([], [0xBA])"
    unfolding stream_loop_skip [OF f0 l0 np0] stream_loop_skip [OF f1 l1 np1]
      stream_loop_no_marker [OF f2] ls ..
  have w: "serial_worker_loop clock (0, []) ?B = Inr ((0, []), [0xBA])"
    unfolding serial_worker_loop_skip [OF f0 l0 np0] serial_worker_loop_skip [OF f1 l1 np1]
      serial_worker_loop_no_marker [OF f2] ls ..
  from np d s w show ?thesis by blast
qed

end
